theory Spec2Isabelle
  imports Main
begin

section \<open>Drive items and delta snapshots\<close>

text \<open>
  The remote item graph of \<^verbatim>\<open>onedrive-types.ts\<close>. Only the fields the watch engine
  reads are kept. Optional JSON members are options; \<^verbatim>\<open>root?: {}\<close> is kept as the
  truth value of \<^verbatim>\<open>item.root\<close> (an object is always truthy), and \<^verbatim>\<open>deleted\<close> as the
  optional tombstone state. Timestamps are milliseconds since the epoch.
\<close>

record ParentReference =
  ref_id :: string
  path :: "string option"

record DriveItem =
  item_id :: string
  name :: string
  createdDateTime :: int
  parentReference :: "ParentReference option"
  root :: bool
  deleted :: "string option"

definition driveRootPrefix :: string where
  "driveRootPrefix = ''/drive/root:''"

text \<open>
  Truthiness of an optional string: \<^verbatim>\<open>undefined\<close> and the empty string are falsy.
\<close>

fun truthy :: "string option \<Rightarrow> string option" where
  "truthy None = None"
| "truthy (Some []) = None"
| "truthy (Some (c # cs)) = Some (c # cs)"

text \<open>
  \<^verbatim>\<open>Map.set\<close>: an existing key keeps its place in the iteration order and gets the new
  value, a new key goes to the end. \<^verbatim>\<open>Map.get\<close> is \<^const>\<open>map_of\<close>.
\<close>

fun Map_set :: "'k \<Rightarrow> 'v \<Rightarrow> ('k \<times> 'v) list \<Rightarrow> ('k \<times> 'v) list" where
  "Map_set k v [] = [(k, v)]"
| "Map_set k v ((k', v') # ps) =
     (if k' = k then (k, v) # ps else (k', v') # Map_set k v ps)"

text \<open>
  \<^verbatim>\<open>DeltaResultInteractor.getPathForItem\<close>. The recursion follows the parent looked up
  by id in the same snapshot; on a cyclic snapshot it does not return, which is the value
  \<^term>\<open>None\<close> here. \<^verbatim>\<open>String.slice\<close> from an index is \<^const>\<open>drop\<close>.
\<close>

partial_function (option) getPathForItem ::
  "(string \<times> DriveItem) list \<Rightarrow> DriveItem \<Rightarrow> string option" where
  "getPathForItem results item =
     (if root item then Some ''''
      else (case parentReference item of
        None \<Rightarrow> Some (name item)
      | Some pr \<Rightarrow>
          (if path pr = Some driveRootPrefix then Some (name item)
           else (case truthy (path pr) of
             Some p \<Rightarrow> Some (drop (length driveRootPrefix + 1) p @ ''/'' @ name item)
           | None \<Rightarrow>
               (case map_of results (ref_id pr) of
                  None \<Rightarrow> Some (name item)
                | Some parentItem \<Rightarrow>
                    Option.bind (getPathForItem results parentItem)
                      (\<lambda>parentPath. Some (parentPath @ ''/'' @ name item)))))))"

section \<open>The remote API client\<close>

text \<open>
  Everything the source can throw is a value. \<open>ResponseError\<close> carries the status of
  a non-2xx response; \<open>FetchRejected\<close> is a rejection of the platform's \<^verbatim>\<open>fetch\<close>
  itself; \<open>TypeError\<close> is a method call on \<^verbatim>\<open>undefined\<close>; \<open>RangeError\<close> is the
  exhausted call stack; \<open>UnsupportedScheme\<close> is the \<^verbatim>\<open>Error\<close> of \<^verbatim>\<open>parseUri\<close>;
  \<open>SessionRejected\<close> is a rejected authentication session.
\<close>

datatype error =
    ResponseError nat
  | FetchRejected
  | TypeError
  | RangeError
  | UnsupportedScheme string
  | SessionRejected

record 'b Response =
  status :: nat
  date :: "int option"
  json :: 'b

text \<open>
  The remote service answers a method and an absolute URL. The \<^verbatim>\<open>Date\<close> header is kept
  already parsed.
\<close>

datatype 'b reply = Rejected | Resolved "'b Response"

type_synonym 'b remote = "string \<Rightarrow> string \<Rightarrow> 'b reply"

definition graph_root :: string where
  "graph_root = ''https://graph.microsoft.com/v1.0/''"

definition startsWith :: "string \<Rightarrow> string \<Rightarrow> bool" where
  "startsWith s p = (take (length p) s = p)"

definition ok :: "'b Response \<Rightarrow> bool" where
  "ok response = (200 \<le> status response \<and> status response \<le> 299)"

definition ResponseError_is :: "error \<Rightarrow> nat \<Rightarrow> bool" where
  "ResponseError_is e statusCode = (e = ResponseError statusCode)"

text \<open>
  \<^verbatim>\<open>OneDriveClient.fetch\<close>. A route that is \<^verbatim>\<open>undefined\<close> fails at
  \<^verbatim>\<open>route.startsWith\<close>.
\<close>

definition fetch :: "'b remote \<Rightarrow> string \<Rightarrow> string option \<Rightarrow> error + 'b Response" where
  "fetch remote method route =
     (case route of
        None \<Rightarrow> Inl TypeError
      | Some r \<Rightarrow>
          (case remote method (if startsWith r ''https:'' then r else graph_root @ r) of
             Rejected \<Rightarrow> Inl FetchRejected
           | Resolved response \<Rightarrow>
               (if \<not> ok response then Inl (ResponseError (status response))
                else Inr response)))"

definition fetchJson :: "'b remote \<Rightarrow> string \<Rightarrow> string option \<Rightarrow> error + 'b" where
  "fetchJson remote method route =
     (case fetch remote method route of
        Inl e \<Rightarrow> Inl e
      | Inr response \<Rightarrow> Inr (json response))"

text \<open>
  The body of a list response: the \<^verbatim>\<open>value\<close> array and the two optional links
  \<^verbatim>\<open>@odata.deltaLink\<close> and \<^verbatim>\<open>@odata.nextLink\<close>.
\<close>

record DeltaResponse =
  odata_deltaLink :: "string option"
  odata_nextLink :: "string option"
  value_items :: "DriveItem list"

text \<open>
  The listings of the client, each one call of \<^verbatim>\<open>fetchJson\<close>. Their bodies are whatever
  JSON the service sends.
\<close>

definition getOwnDrives :: "'b remote \<Rightarrow> error + 'b" where
  "getOwnDrives remote = fetchJson remote ''GET'' (Some ''me/drives'')"

definition getRootChildren :: "'b remote \<Rightarrow> string \<Rightarrow> error + 'b" where
  "getRootChildren remote driveId =
     fetchJson remote ''GET'' (Some (''drives/'' @ driveId @ ''/root/children''))"

definition getNestedChildren ::
  "DeltaResponse remote \<Rightarrow> string \<Rightarrow> string \<Rightarrow> error + DeltaResponse" where
  "getNestedChildren remote driveId itemId =
     fetchJson remote ''GET''
       (Some (''drives/'' @ driveId @ ''/items/'' @ itemId @ ''/children''))"

section \<open>The delta result of one round\<close>

record DeltaResultInteractor =
  results :: "(string \<times> DriveItem) list"
  lastUpdated :: int
  next_link :: "string option"

text \<open>
  The constructor. \<open>now\<close> is the reading of \<^verbatim>\<open>Date.now()\<close>, used when the response
  has no \<^verbatim>\<open>Date\<close> header.
\<close>

definition new_DeltaResultInteractor ::
  "DeltaResponse \<Rightarrow> int option \<Rightarrow> int \<Rightarrow> DeltaResultInteractor" where
  "new_DeltaResultInteractor res dateHeader now =
     \<lparr>results = foldl (\<lambda>m item. Map_set (item_id item) item m) [] (value_items res),
      lastUpdated = (case dateHeader of Some d \<Rightarrow> d | None \<Rightarrow> now),
      next_link = odata_deltaLink res\<rparr>"

definition isNew :: "DeltaResultInteractor \<Rightarrow> DriveItem \<Rightarrow> bool" where
  "isNew self item = (createdDateTime item > lastUpdated self)"

text \<open>The iterator: \<^verbatim>\<open>this.results.values()\<close>, in insertion order.\<close>

definition iterator :: "DeltaResultInteractor \<Rightarrow> DriveItem list" where
  "iterator self = map snd (results self)"

text \<open>
  The page loop of \<^verbatim>\<open>loadDelta\<close>. A service that keeps handing out next links keeps the
  loop running: that is the value \<^term>\<open>None\<close>.
\<close>

partial_function (option) follow_pages ::
  "DeltaResponse remote \<Rightarrow> DeltaResponse \<Rightarrow> (error + DeltaResponse) option" where
  "follow_pages remote response =
     (case truthy (odata_nextLink response) of
        None \<Rightarrow> Some (Inr response)
      | Some link \<Rightarrow>
          (case fetchJson remote ''GET'' (Some link) of
             Inl e \<Rightarrow> Some (Inl e)
           | Inr nxt \<Rightarrow>
               follow_pages remote
                 (response\<lparr>value_items := value_items response @ value_items nxt,
                           odata_deltaLink := odata_deltaLink nxt,
                           odata_nextLink := odata_nextLink nxt\<rparr>)))"

definition loadDelta ::
  "DeltaResponse remote \<Rightarrow> int \<Rightarrow> string option \<Rightarrow> (error + DeltaResultInteractor) option" where
  "loadDelta remote now routeOrUrl =
     (case fetch remote ''GET'' routeOrUrl of
        Inl e \<Rightarrow> Some (Inl e)
      | Inr res \<Rightarrow>
          (case follow_pages remote (json res) of
             None \<Rightarrow> None
           | Some (Inl e) \<Rightarrow> Some (Inl e)
           | Some (Inr response) \<Rightarrow>
               Some (Inr (new_DeltaResultInteractor response (date res) now))))"

section \<open>The watch loop\<close>

datatype FileChangeType = Changed | Created | Deleted

text \<open>
  \<^verbatim>\<open>new Date(value.createdDateTime)\<close> in a condition: a \<^verbatim>\<open>Date\<close> is an object, and
  every object is truthy, whatever the time it holds.
\<close>

definition new_Date_truthy :: "int \<Rightarrow> bool" where
  "new_Date_truthy t = True"

text \<open>
  The function mapped over the new snapshot. A path resolution that exhausts the stack
  makes the whole map throw.
\<close>

definition change_of ::
  "DeltaResultInteractor \<Rightarrow> DriveItem \<Rightarrow> (FileChangeType \<times> string) option" where
  "change_of nxt v =
     (case getPathForItem (results nxt) v of
        None \<Rightarrow> None
      | Some p \<Rightarrow>
          Some (if deleted v \<noteq> None then (Deleted, p)
                else if new_Date_truthy (createdDateTime v) then (Created, p)
                else (Changed, p)))"

definition changes_of :: "DeltaResultInteractor \<Rightarrow> (FileChangeType \<times> string) list option" where
  "changes_of nxt = those (map (change_of nxt) (iterator nxt))"

text \<open>
  What the surroundings do during one turn of the loop: the service as it answers at that
  time, the clock, and whether cancellation was requested by the time the sleep promise
  resolved (the listener resolves it at once, the timer after the interval), while the
  fetch was awaited, and while the generator was suspended at its \<^verbatim>\<open>yield\<close>.
\<close>

record poll_round =
  service :: "DeltaResponse remote"
  clock :: int
  cancel_in_sleep :: bool
  cancel_in_fetch :: bool
  cancel_in_yield :: bool

text \<open>
  How an execution ends: the generator returns, throws, never comes back from an await,
  or is still running when the script of rounds ends.
\<close>

datatype outcome = Returned | Threw error | Diverged | Running

text \<open>
  The \<^verbatim>\<open>while\<close> loop of \<^verbatim>\<open>OneDriveClient.watch\<close>: \<open>ct\<close> is
  \<^verbatim>\<open>ct.isCancellationRequested\<close> at the loop head and \<open>last_results\<close> the
  variable \<^verbatim>\<open>results\<close>. The result is the list of yielded
  batches and the way the execution ended.
\<close>

fun watch_loop ::
  "DeltaResultInteractor \<Rightarrow> bool \<Rightarrow> poll_round list
     \<Rightarrow> (FileChangeType \<times> string) list list \<times> outcome" where
  "watch_loop last_results ct [] = ([], if ct then Returned else Running)"
| "watch_loop last_results ct (r # rs) =
     (if ct then ([], Returned)
      else if cancel_in_sleep r then ([], Returned)
      else (case loadDelta (service r) (clock r) (next_link last_results) of
        None \<Rightarrow> ([], Diverged)
      | Some (Inl e) \<Rightarrow> ([], Threw e)
      | Some (Inr nxt) \<Rightarrow>
          (if cancel_in_fetch r then ([], Returned)
           else (case changes_of nxt of
             None \<Rightarrow> ([], Threw RangeError)
           | Some changes \<Rightarrow>
               (case watch_loop nxt (cancel_in_yield r) rs of
                  (batches, out) \<Rightarrow> (changes # batches, out))))))"

definition delta_route :: "string \<Rightarrow> string" where
  "delta_route driveId = ''drives/'' @ driveId @ ''/items/root/delta''"

text \<open>
  \<^verbatim>\<open>OneDriveClient.watch\<close>: the baseline load, then the loop. \<open>ct0\<close> says whether
  cancellation was requested while the baseline was loaded.
\<close>

definition watch ::
  "DeltaResponse remote \<Rightarrow> int \<Rightarrow> string \<Rightarrow> bool \<Rightarrow> poll_round list
     \<Rightarrow> (FileChangeType \<times> string) list list \<times> outcome" where
  "watch remote0 now0 driveId ct0 rounds =
     (case loadDelta remote0 now0 (Some (delta_route driveId)) of
        None \<Rightarrow> ([], Diverged)
      | Some (Inl e) \<Rightarrow> ([], Threw e)
      | Some (Inr last_results) \<Rightarrow> watch_loop last_results ct0 rounds)"

section \<open>The file system provider\<close>

record Uri =
  scheme :: string
  authority :: string
  uri_path :: string

definition provider_scheme :: string where
  "provider_scheme = ''onedrive''"

text \<open>\<^verbatim>\<open>parseUri\<close>: the path loses its leading slashes.\<close>

definition parseUri :: "Uri \<Rightarrow> error + string \<times> string" where
  "parseUri uri =
     (if scheme uri \<noteq> provider_scheme then Inl (UnsupportedScheme (scheme uri))
      else Inr (authority uri, dropWhile (\<lambda>c. c = CHR ''/'') (uri_path uri)))"

text \<open>
  \<^verbatim>\<open>ClientProvider.demandForFs\<close>: the client is built from the access token of the
  cached session, which the host either granted or refused.
\<close>

definition demandForFs :: "error + string \<Rightarrow> error + string" where
  "demandForFs session = (case session of Inl e \<Rightarrow> Inl e | Inr accessToken \<Rightarrow> Inr accessToken)"

subsection \<open>delete\<close>

text \<open>
  \<^verbatim>\<open>OneDriveClient.delete\<close>. \<^verbatim>\<open>encodeURI\<close> is the platform's function.
\<close>

definition client_delete ::
  "unit remote \<Rightarrow> (string \<Rightarrow> string) \<Rightarrow> string \<Rightarrow> string \<Rightarrow> error + unit" where
  "client_delete remote encodeURI driveId filePath =
     (case fetch remote ''DELETE''
             (Some (''drives/'' @ driveId @ ''/items/root:/'' @ encodeURI filePath)) of
        Inl e \<Rightarrow> (if \<not> ResponseError_is e 404 then Inl e else Inr ())
      | Inr response \<Rightarrow> Inr ())"

text \<open>
  \<^verbatim>\<open>OneDriveFileSystemProvider.delete\<close>. The call \<^verbatim>\<open>client.delete(driveId, path)\<close> is
  a statement of its own: its promise is neither awaited nor returned. The first component
  is what the promise given to the caller settles with, the second the rejection of the
  promise that nobody holds.
\<close>

definition provider_delete ::
  "error + string \<Rightarrow> unit remote \<Rightarrow> (string \<Rightarrow> string) \<Rightarrow> Uri
     \<Rightarrow> (error + unit) \<times> error option" where
  "provider_delete session remote encodeURI uri =
     (case parseUri uri of
        Inl e \<Rightarrow> (Inl e, None)
      | Inr (driveId, filePath) \<Rightarrow>
          (case demandForFs session of
             Inl e \<Rightarrow> (Inl e, None)
           | Inr client \<Rightarrow>
               (Inr (),
                (case client_delete remote encodeURI driveId filePath of
                   Inl e \<Rightarrow> Some e
                 | Inr u \<Rightarrow> None))))"

subsection \<open>watch\<close>

text \<open>
  The field \<^verbatim>\<open>this.watcher\<close> holds the count and the cancellation token source, which is
  known by the number of sources made before it.
\<close>

record watcher_state =
  count :: int
  cts :: nat

text \<open>
  The provider as far as \<^verbatim>\<open>watch\<close> touches it. Beside the field \<^verbatim>\<open>watcher\<close>, the
  state records what has happened: how many token sources were made, on which sources
  \<^verbatim>\<open>cancel()\<close> was called (in call order), which polling loops were launched (token
  source and drive), the \<^verbatim>\<open>disposed\<close> variable of every handle returned so far (in the
  order of the calls), and which handles decremented the count.
\<close>

record provider =
  watcher :: "watcher_state option"
  sources :: nat
  cancelled :: "nat list"
  loops :: "(nat \<times> string) list"
  disposed :: "bool list"
  decrements :: "nat list"

definition new_provider :: provider where
  "new_provider =
     \<lparr>watcher = None, sources = 0, cancelled = [], loops = [], disposed = [], decrements = []\<rparr>"

text \<open>
  \<^verbatim>\<open>OneDriveFileSystemProvider.watch\<close>. The loop is launched by the continuation of
  \<^verbatim>\<open>demandForFs()\<close>, so it is launched when the session is granted. The result is the
  new handle (its index) and the new state; \<^verbatim>\<open>parseUri\<close> is reached, and can throw, only
  when there is no watcher.
\<close>

definition provider_watch :: "error + string \<Rightarrow> Uri \<Rightarrow> provider \<Rightarrow> error + nat \<times> provider" where
  "provider_watch session uri p =
     (case
        (case watcher p of
           Some w \<Rightarrow> Inr (p\<lparr>watcher := Some (w\<lparr>count := count w + 1\<rparr>)\<rparr>)
         | None \<Rightarrow>
             (case parseUri uri of
                Inl e \<Rightarrow> Inl e
              | Inr (driveId, filePath) \<Rightarrow>
                  Inr (p\<lparr>sources := sources p + 1,
                         loops := loops p @
                           (case demandForFs session of
                              Inl e \<Rightarrow> []
                            | Inr client \<Rightarrow> [(sources p, driveId)]),
                         watcher := Some \<lparr>count = 1, cts = sources p\<rparr>\<rparr>)))
      of
        Inl e \<Rightarrow> Inl e
      | Inr p' \<Rightarrow> Inr (length (disposed p'), p'\<lparr>disposed := disposed p' @ [False]\<rparr>))"

text \<open>
  The \<^verbatim>\<open>dispose\<close> of handle \<open>h\<close>. The pre-decrement runs whenever the handle is not
  yet disposed and a watcher exists. A handle that was never returned cannot be disposed:
  the state stays as it is.
\<close>

definition dispose :: "nat \<Rightarrow> provider \<Rightarrow> provider" where
  "dispose h p =
     (if h < length (disposed p) then
        (let p' =
           (if \<not> disposed p ! h then
              (case watcher p of
                 None \<Rightarrow> p
               | Some w \<Rightarrow>
                   (if count w - 1 = 0
                    then p\<lparr>cancelled := cancelled p @ [cts w], watcher := None,
                           decrements := decrements p @ [h]\<rparr>
                    else p\<lparr>watcher := Some (w\<lparr>count := count w - 1\<rparr>),
                           decrements := decrements p @ [h]\<rparr>))
            else p)
         in p'\<lparr>disposed := (disposed p')[h := True]\<rparr>)
      else p)"

text \<open>A history of the provider: calls of \<^verbatim>\<open>watch\<close> and of the handles' \<^verbatim>\<open>dispose\<close>.\<close>

datatype op = Watch Uri | Dispose nat

fun step :: "error + string \<Rightarrow> provider \<Rightarrow> op \<Rightarrow> provider" where
  "step session p (Watch uri) =
     (case provider_watch session uri p of Inl e \<Rightarrow> p | Inr (h, p') \<Rightarrow> p')"
| "step session p (Dispose h) = dispose h p"

definition run :: "error + string \<Rightarrow> op list \<Rightarrow> provider" where
  "run session ops = foldl (step session) new_provider ops"

text \<open>The loops that were launched and whose token source has not been cancelled.\<close>

definition active :: "provider \<Rightarrow> (nat \<times> string) list" where
  "active p = filter (\<lambda>l. fst l \<notin> set (cancelled p)) (loops p)"

definition undisposed :: "provider \<Rightarrow> nat" where
  "undisposed p = length (filter Not (disposed p))"

section \<open>Notions used to state the properties\<close>

declare getPathForItem.simps [code]
declare follow_pages.simps [code]

text \<open>
  The parent-id references of a snapshot: the pairs of a parent and a child, where the
  child is an item of the snapshot and the id of its parent reference is found in the
  snapshot.
\<close>

definition parent_edges :: "(string \<times> DriveItem) list \<Rightarrow> (DriveItem \<times> DriveItem) set" where
  "parent_edges rs =
     {(parentItem, item). item \<in> snd ` set rs \<and>
        (\<exists>pr. parentReference item = Some pr \<and> map_of rs (ref_id pr) = Some parentItem)}"

text \<open>
  The pages the service hands out from a link on: each page is what the link before it
  answers, and the last page has no next link.
\<close>

fun page_chain :: "DeltaResponse remote \<Rightarrow> string option \<Rightarrow> DeltaResponse list \<Rightarrow> bool" where
  "page_chain remote link [] = (truthy link = None)"
| "page_chain remote link (pg # pgs) =
     (case truthy link of
        None \<Rightarrow> False
      | Some l \<Rightarrow>
          fetchJson remote ''GET'' (Some l) = Inr pg \<and>
          page_chain remote (odata_nextLink pg) pgs)"

text \<open>
  One response for a sequence of pages: the items of all pages in order, and the links of
  the last page.
\<close>

definition materialized :: "DeltaResponse list \<Rightarrow> DeltaResponse" where
  "materialized pgs =
     \<lparr>odata_deltaLink = odata_deltaLink (last pgs),
      odata_nextLink = odata_nextLink (last pgs),
      value_items = concat (map value_items pgs)\<rparr>"

text \<open>
  The elements of a list in the order of their first occurrences, each once.
\<close>

fun first_occurrences :: "'a list \<Rightarrow> 'a list" where
  "first_occurrences [] = []"
| "first_occurrences (x # xs) = x # filter (\<lambda>y. y \<noteq> x) (first_occurrences xs)"

text \<open>
  One request and no more: the body of the response to a GET of the route under the root
  of the API, or the error of that one request.
\<close>

definition single_request :: "'b remote \<Rightarrow> string \<Rightarrow> error + 'b" where
  "single_request remote route =
     (case remote ''GET'' (graph_root @ route) of
        Rejected \<Rightarrow> Inl FetchRejected
      | Resolved response \<Rightarrow>
          (if ok response then Inr (json response)
           else Inl (ResponseError (status response))))"

text \<open>
  The variable \<^verbatim>\<open>results\<close> and the state of the token at the head of the loop after
  the given rounds, when the loop gets there: every one of these rounds has yielded its
  batch.
\<close>

fun loop_state ::
  "DeltaResultInteractor \<Rightarrow> bool \<Rightarrow> poll_round list \<Rightarrow> (DeltaResultInteractor \<times> bool) option" where
  "loop_state last_results ct [] = Some (last_results, ct)"
| "loop_state last_results ct (r # rs) =
     (if ct \<or> cancel_in_sleep r then None
      else (case loadDelta (service r) (clock r) (next_link last_results) of
        Some (Inr nxt) \<Rightarrow>
          (if cancel_in_fetch r then None
           else (case changes_of nxt of
             None \<Rightarrow> None
           | Some changes \<Rightarrow> loop_state nxt (cancel_in_yield r) rs))
      | _ \<Rightarrow> None))"

text \<open>
  What holds of the provider after every history: the sources cancelled so far, followed
  by the source of the current watcher, are the sources made so far, in order; the count
  is the number of handles not yet disposed; the handles that decremented the count are
  the disposed ones, each once.
\<close>

definition provider_inv :: "provider \<Rightarrow> bool" where
  "provider_inv p =
     (cancelled p @ (case watcher p of None \<Rightarrow> [] | Some w \<Rightarrow> [cts w]) = [0..<sources p] \<and>
      (case watcher p of
         None \<Rightarrow> undisposed p = 0
       | Some w \<Rightarrow> count w = int (undisposed p) \<and> 0 < undisposed p) \<and>
      distinct (decrements p) \<and>
      set (decrements p) = {h. h < length (disposed p) \<and> disposed p ! h})"

section \<open>Example data\<close>

text \<open>
  A drive with the folder \<^verbatim>\<open>Docs\<close> under its root and the file \<^verbatim>\<open>a.txt\<close> in it. The
  folder carries the materialized path of the root, the file only the id of the folder.
\<close>

definition item_A :: DriveItem where
  "item_A = \<lparr>item_id = ''A'', name = ''root'', createdDateTime = 0,
     parentReference = None, root = True, deleted = None\<rparr>"

definition item_B :: DriveItem where
  "item_B = \<lparr>item_id = ''F1'', name = ''Docs'', createdDateTime = 100,
     parentReference = Some \<lparr>ref_id = ''A'', path = Some ''/drive/root:''\<rparr>,
     root = False, deleted = None\<rparr>"

definition item_C :: DriveItem where
  "item_C = \<lparr>item_id = ''I1'', name = ''a.txt'', createdDateTime = 200,
     parentReference = Some \<lparr>ref_id = ''F1'', path = None\<rparr>,
     root = False, deleted = None\<rparr>"

definition snapshot_ABC :: "(string \<times> DriveItem) list" where
  "snapshot_ABC = [(''A'', item_A), (''F1'', item_B), (''I1'', item_C)]"

text \<open>
  Two items whose parent \<^verbatim>\<open>F9\<close> is in no snapshot here: one with a materialized path,
  one with the id only.
\<close>

definition item_D :: DriveItem where
  "item_D = \<lparr>item_id = ''I2'', name = ''b.txt'', createdDateTime = 300,
     parentReference = Some \<lparr>ref_id = ''F9'', path = Some ''/drive/root:/Docs''\<rparr>,
     root = False, deleted = None\<rparr>"

definition item_E :: DriveItem where
  "item_E = \<lparr>item_id = ''I4'', name = ''e.txt'', createdDateTime = 300,
     parentReference = Some \<lparr>ref_id = ''F9'', path = None\<rparr>,
     root = False, deleted = None\<rparr>"

definition snapshot_DE :: "(string \<times> DriveItem) list" where
  "snapshot_DE = [(''I2'', item_D), (''I4'', item_E)]"

text \<open>
  A round that follows a snapshot of the folder and the file, taken at time 1000: the
  service reports the file deleted (a tombstone with the id of its parent only) and a file
  \<^verbatim>\<open>old.txt\<close> created at time 500.
\<close>

definition tombstone_C :: DriveItem where
  "tombstone_C = item_C\<lparr>deleted := Some ''deleted''\<rparr>"

definition old_item :: DriveItem where
  "old_item = \<lparr>item_id = ''I3'', name = ''old.txt'', createdDateTime = 500,
     parentReference = Some \<lparr>ref_id = ''F1'', path = Some ''/drive/root:/Docs''\<rparr>,
     root = False, deleted = None\<rparr>"

definition previous_round :: DeltaResultInteractor where
  "previous_round =
     \<lparr>results = [(''F1'', item_B), (''I1'', item_C)], lastUpdated = 1000,
      next_link = Some ''https://delta/1''\<rparr>"

definition not_found :: "DeltaResponse reply" where
  "not_found = Resolved \<lparr>status = 404, date = None,
     json = \<lparr>odata_deltaLink = None, odata_nextLink = None, value_items = []\<rparr>\<rparr>"

definition service_1 :: "DeltaResponse remote" where
  "service_1 method url =
     (if url = ''https://delta/1'' then
        Resolved \<lparr>status = 200, date = Some 2000,
          json = \<lparr>odata_deltaLink = Some ''https://delta/2'', odata_nextLink = None,
                  value_items = [tombstone_C, old_item]\<rparr>\<rparr>
      else not_found)"

definition round_1 :: poll_round where
  "round_1 = \<lparr>service = service_1, clock = 2000, cancel_in_sleep = False,
     cancel_in_fetch = False, cancel_in_yield = False\<rparr>"

definition next_round :: DeltaResultInteractor where
  "next_round =
     \<lparr>results = [(''I1'', tombstone_C), (''I3'', old_item)], lastUpdated = 2000,
      next_link = Some ''https://delta/2''\<rparr>"

text \<open>The round after it: the service reports \<^verbatim>\<open>old.txt\<close> deleted.\<close>

definition service_2 :: "DeltaResponse remote" where
  "service_2 method url =
     (if url = ''https://delta/2'' then
        Resolved \<lparr>status = 200, date = Some 3000,
          json = \<lparr>odata_deltaLink = Some ''https://delta/3'', odata_nextLink = None,
                  value_items = [old_item\<lparr>deleted := Some ''deleted''\<rparr>]\<rparr>\<rparr>
      else not_found)"

definition round_2 :: poll_round where
  "round_2 = \<lparr>service = service_2, clock = 3000, cancel_in_sleep = False,
     cancel_in_fetch = False, cancel_in_yield = False\<rparr>"

definition last_round :: DeltaResultInteractor where
  "last_round =
     \<lparr>results = [(''I3'', old_item\<lparr>deleted := Some ''deleted''\<rparr>)], lastUpdated = 3000,
      next_link = Some ''https://delta/3''\<rparr>"

text \<open>
  A service that answers the baseline request of drive \<^verbatim>\<open>d\<close> in two pages, and the
  children of the folder in two pages as well.
\<close>

definition page_1 :: DeltaResponse where
  "page_1 = \<lparr>odata_deltaLink = None, odata_nextLink = Some ''https://delta/page2'',
     value_items = [item_B]\<rparr>"

definition page_2 :: DeltaResponse where
  "page_2 = \<lparr>odata_deltaLink = Some ''https://delta/1'', odata_nextLink = None,
     value_items = [item_C]\<rparr>"

definition list_page_1 :: DeltaResponse where
  "list_page_1 = \<lparr>odata_deltaLink = None, odata_nextLink = Some ''https://list/page2'',
     value_items = [item_C]\<rparr>"

definition list_page_2 :: DeltaResponse where
  "list_page_2 = \<lparr>odata_deltaLink = None, odata_nextLink = None,
     value_items = [old_item]\<rparr>"

definition service_0 :: "DeltaResponse remote" where
  "service_0 method url =
     (if url = ''https://graph.microsoft.com/v1.0/drives/d/items/root/delta''
      then Resolved \<lparr>status = 200, date = Some 1000, json = page_1\<rparr>
      else if url = ''https://delta/page2''
      then Resolved \<lparr>status = 200, date = Some 1001, json = page_2\<rparr>
      else if url = ''https://graph.microsoft.com/v1.0/drives/d/items/F1/children''
      then Resolved \<lparr>status = 200, date = Some 1002, json = list_page_1\<rparr>
      else if url = ''https://list/page2''
      then Resolved \<lparr>status = 200, date = Some 1003, json = list_page_2\<rparr>
      else not_found)"

text \<open>
  A delta feed in two pages where the folder comes twice, the second time under a new
  name, and the interactor that is built from it.
\<close>

definition item_B2 :: DriveItem where
  "item_B2 = item_B\<lparr>name := ''Documents''\<rparr>"

definition dup_page_1 :: DeltaResponse where
  "dup_page_1 = \<lparr>odata_deltaLink = None, odata_nextLink = Some ''https://dup/page2'',
     value_items = [item_B, item_C]\<rparr>"

definition dup_page_2 :: DeltaResponse where
  "dup_page_2 = \<lparr>odata_deltaLink = Some ''https://dup/1'', odata_nextLink = None,
     value_items = [item_B2, old_item]\<rparr>"

definition service_3 :: "DeltaResponse remote" where
  "service_3 method url =
     (if url = ''https://dup/page1''
      then Resolved \<lparr>status = 200, date = Some 1000, json = dup_page_1\<rparr>
      else if url = ''https://dup/page2''
      then Resolved \<lparr>status = 200, date = Some 1001, json = dup_page_2\<rparr>
      else not_found)"

definition dup_result :: DeltaResultInteractor where
  "dup_result =
     \<lparr>results = [(''F1'', item_B2), (''I1'', item_C), (''I3'', old_item)], lastUpdated = 1000,
      next_link = Some ''https://dup/1''\<rparr>"

text \<open>A service that refuses every request with status 500.\<close>

definition service_500 :: "unit remote" where
  "service_500 method url = Resolved \<lparr>status = 500, date = None, json = ()\<rparr>"

text \<open>Two addresses, on the drives \<^verbatim>\<open>d\<close> and \<^verbatim>\<open>e\<close>, and a history of the provider.\<close>

definition uri_d :: Uri where
  "uri_d = \<lparr>scheme = ''onedrive'', authority = ''d'', uri_path = ''/Docs/a.txt''\<rparr>"

definition uri_e :: Uri where
  "uri_e = \<lparr>scheme = ''onedrive'', authority = ''e'', uri_path = ''/''\<rparr>"

definition history_1 :: "op list" where
  "history_1 = [Watch uri_d, Watch uri_e, Dispose 0, Dispose 0, Dispose 1, Watch uri_e]"

definition history_2 :: "op list" where
  "history_2 = [Watch uri_d, Watch uri_e]"

definition history_3 :: "op list" where
  "history_3 = [Watch uri_d, Watch uri_e, Dispose 0]"

section \<open>Path resolution\<close>

lemma truthy_None_not_prefix: "truthy s = None \<Longrightarrow> s \<noteq> Some driveRootPrefix"
  by (cases s) (auto simp: driveRootPrefix_def)

lemma getPathForItem_root_child:
  "\<not> root item \<Longrightarrow> parentReference item = Some pr \<Longrightarrow> path pr = Some driveRootPrefix
     \<Longrightarrow> getPathForItem rs item = Some (name item)"
  by (subst getPathForItem.simps) simp

lemma getPathForItem_by_id:
  "\<not> root item \<Longrightarrow> parentReference item = Some pr \<Longrightarrow> truthy (path pr) = None
     \<Longrightarrow> getPathForItem rs item =
       (case map_of rs (ref_id pr) of
          None \<Rightarrow> Some (name item)
        | Some parentItem \<Rightarrow>
            Option.bind (getPathForItem rs parentItem)
              (\<lambda>parentPath. Some (parentPath @ ''/'' @ name item)))"
  by (subst getPathForItem.simps) (simp add: truthy_None_not_prefix)

lemma finite_parent_edges: "finite (parent_edges rs)"
proof -
  have "parent_edges rs \<subseteq> (snd ` set rs) \<times> (snd ` set rs)"
    by (auto simp: parent_edges_def dest!: map_of_SomeD intro: rev_image_eqI)
  then show ?thesis by (rule finite_subset) simp
qed

text \<open>
  Where the parent-id references are well-founded, the resolution of every item of the
  snapshot returns: by induction along the references, the parent's path being there when
  the recursive call is made.
\<close>

lemma getPathForItem_wf:
  assumes "wf (parent_edges rs)" and "item \<in> snd ` set rs"
  shows "\<exists>p. getPathForItem rs item = Some p"
  using assms
proof (induction item rule: wf_induct_rule)
  case (less item)
  show ?case
  proof (cases "\<not> root item \<and> (\<exists>pr. parentReference item = Some pr \<and>
      truthy (path pr) = None \<and> map_of rs (ref_id pr) \<noteq> None)")
    case False
    then show ?thesis
      by (subst getPathForItem.simps) (auto split: option.splits)
  next
    case True
    then obtain pr parentItem where pr: "\<not> root item" "parentReference item = Some pr"
      "truthy (path pr) = None" "map_of rs (ref_id pr) = Some parentItem"
      by auto
    have edge: "(parentItem, item) \<in> parent_edges rs"
      using pr less.prems by (auto simp: parent_edges_def)
    have "parentItem \<in> snd ` set rs"
      using pr(4) by (auto dest!: map_of_SomeD intro: rev_image_eqI)
    from less.IH [OF edge this] obtain q where "getPathForItem rs parentItem = Some q" ..
    then show ?thesis
      using pr by (simp add: getPathForItem_by_id)
  qed
qed

lemma acyclic_snapshot_ABC: "acyclic (parent_edges snapshot_ABC)"
proof (rule acyclicI_order [where f = "\<lambda>i. - createdDateTime i"])
  fix a b assume "(a, b) \<in> parent_edges snapshot_ABC"
  then show "- createdDateTime b < - createdDateTime a"
    by (auto simp: parent_edges_def snapshot_ABC_def item_A_def item_B_def item_C_def
        split: if_splits)
qed

text \<open>
  Claim C9. For every snapshot whose parent-id references form a directed acyclic graph
  (no item is its own ancestor), \<^verbatim>\<open>getPathForItem\<close> terminates for every item of the
  snapshot: it returns a path.
\<close>

theorem getPathForItem_terminates:
  assumes "acyclic (parent_edges rs)" and "item \<in> snd ` set rs"
  shows "\<exists>p. getPathForItem rs item = Some p"
  using getPathForItem_wf [OF finite_acyclic_wf [OF finite_parent_edges assms(1)] assms(2)] .

theorem getPathForItem_terminates_witness:
  "acyclic (parent_edges snapshot_ABC) \<and> item_C \<in> snd ` set snapshot_ABC \<and>
   getPathForItem snapshot_ABC item_C = Some ''Docs/a.txt''"
proof -
  have m: "item_C \<in> snd ` set snapshot_ABC" by (simp add: snapshot_ABC_def)
  have "\<exists>p. getPathForItem snapshot_ABC item_C = Some p"
    by (rule getPathForItem_terminates [OF acyclic_snapshot_ABC m])
  moreover have "getPathForItem snapshot_ABC item_C = Some ''Docs/a.txt''"
    by code_simp
  ultimately show ?thesis using acyclic_snapshot_ABC m by simp
qed

lemma slice_index: "length driveRootPrefix = 12"
  by (simp add: driveRootPrefix_def)

lemma getPathForItem_materialized:
  "\<not> root item \<Longrightarrow> parentReference item = Some pr \<Longrightarrow> path pr = Some p \<Longrightarrow>
   p \<noteq> driveRootPrefix \<Longrightarrow> p \<noteq> [] \<Longrightarrow>
   getPathForItem rs item = Some (drop 13 p @ ''/'' @ name item)"
  by (subst getPathForItem.simps) (cases p; simp add: slice_index)

text \<open>
  Claim C5. In a snapshot where item \<open>A\<close> is the drive root, the parent reference of
  item \<open>B\<close> carries the materialized path of the root (so \<open>B\<close> is not the root
  itself), and the parent reference of item \<open>C\<close> carries no path but the id of \<open>B\<close>,
  resolving \<open>C\<close> yields the name of \<open>B\<close>, a slash and the name of \<open>C\<close>. And where
  the resolution looks a parent id up, the item not being the root and its parent
  reference carrying no path, and the id is not found in the snapshot, it returns the
  item's name alone instead of failing. The third and fourth conjunct state the rest of
  the function: when the id is found, the item takes the resolved path of its parent; and
  an item whose parent reference carries a materialized path other than the root's is
  resolved from that path, with no lookup.
\<close>

theorem getPathForItem_reconstruction:
  "(\<not> root B \<and> parentReference B = Some prB \<and> path prB = Some driveRootPrefix \<and>
    \<not> root C \<and> parentReference C = Some prC \<and> truthy (path prC) = None \<and>
    ref_id prC = item_id B \<and> map_of rs (item_id B) = Some B
      \<longrightarrow> getPathForItem rs C = Some (name B @ ''/'' @ name C)) \<and>
   (\<not> root item \<and> parentReference item = Some pr \<and> truthy (path pr) = None \<and>
    map_of rs (ref_id pr) = None
      \<longrightarrow> getPathForItem rs item = Some (name item)) \<and>
   (\<not> root item \<and> parentReference item = Some pr \<and> truthy (path pr) = None \<and>
    map_of rs (ref_id pr) = Some parentItem
      \<longrightarrow> getPathForItem rs item =
            Option.bind (getPathForItem rs parentItem)
              (\<lambda>parentPath. Some (parentPath @ ''/'' @ name item))) \<and>
   (\<not> root item \<and> parentReference item = Some pr \<and> path pr = Some p \<and>
    p \<noteq> driveRootPrefix \<and> p \<noteq> []
      \<longrightarrow> getPathForItem rs item = Some (drop 13 p @ ''/'' @ name item))"
  by (simp add: getPathForItem_by_id getPathForItem_root_child getPathForItem_materialized)

theorem getPathForItem_reconstruction_witness:
  "root item_A \<and> map_of snapshot_ABC ''A'' = Some item_A \<and>
   \<not> root item_B \<and>
   parentReference item_B = Some \<lparr>ref_id = ''A'', path = Some driveRootPrefix\<rparr> \<and>
   \<not> root item_C \<and> parentReference item_C = Some \<lparr>ref_id = ''F1'', path = None\<rparr> \<and>
   ''F1'' = item_id item_B \<and> map_of snapshot_ABC (item_id item_B) = Some item_B \<and>
   getPathForItem snapshot_ABC item_C = Some ''Docs/a.txt'' \<and>
   getPathForItem snapshot_ABC item_C =
     Option.bind (getPathForItem snapshot_ABC item_B)
       (\<lambda>parentPath. Some (parentPath @ ''/'' @ name item_C)) \<and>
   \<not> root item_E \<and> parentReference item_E = Some \<lparr>ref_id = ''F9'', path = None\<rparr> \<and>
   map_of snapshot_DE ''F9'' = None \<and>
   getPathForItem snapshot_DE item_E = Some ''e.txt'' \<and>
   \<not> root item_D \<and>
   parentReference item_D = Some \<lparr>ref_id = ''F9'', path = Some ''/drive/root:/Docs''\<rparr> \<and>
   getPathForItem snapshot_DE item_D = Some ''Docs/b.txt''"
proof -
  have a: "root item_A" "map_of snapshot_ABC ''A'' = Some item_A" "\<not> root item_B"
    "parentReference item_B = Some \<lparr>ref_id = ''A'', path = Some driveRootPrefix\<rparr>"
    "\<not> root item_C" "parentReference item_C = Some \<lparr>ref_id = ''F1'', path = None\<rparr>"
    "''F1'' = item_id item_B" "map_of snapshot_ABC (item_id item_B) = Some item_B"
    by (simp_all add: snapshot_ABC_def item_A_def item_B_def item_C_def driveRootPrefix_def)
  have h: "truthy (path \<lparr>ref_id = ''F1'', path = None\<rparr>) = None"
    "map_of snapshot_ABC (ref_id \<lparr>ref_id = ''F1'', path = None\<rparr>) = Some item_B"
    by (simp_all add: snapshot_ABC_def item_A_def item_B_def)
  from getPathForItem_reconstruction
    [where item = item_C and pr = "\<lparr>ref_id = ''F1'', path = None\<rparr>" and rs = snapshot_ABC
      and parentItem = item_B] a(5,6) h
  have c3: "getPathForItem snapshot_ABC item_C =
     Option.bind (getPathForItem snapshot_ABC item_B)
       (\<lambda>parentPath. Some (parentPath @ ''/'' @ name item_C))"
    by blast
  have c1: "getPathForItem snapshot_ABC item_C = Some ''Docs/a.txt''"
    by code_simp
  have e: "\<not> root item_E" "parentReference item_E = Some \<lparr>ref_id = ''F9'', path = None\<rparr>"
    "map_of snapshot_DE ''F9'' = None"
    by (simp_all add: snapshot_DE_def item_E_def)
  have c2: "getPathForItem snapshot_DE item_E = Some ''e.txt''"
    by code_simp
  have d: "\<not> root item_D"
    "parentReference item_D = Some \<lparr>ref_id = ''F9'', path = Some ''/drive/root:/Docs''\<rparr>"
    by (simp_all add: item_D_def)
  have c4: "getPathForItem snapshot_DE item_D = Some ''Docs/b.txt''"
    by code_simp
  from a c1 c3 e c2 d c4 show ?thesis by (intro conjI)
qed

section \<open>Paged responses\<close>

lemma follow_pages_chain:
  "page_chain remote (odata_nextLink acc) pgs \<Longrightarrow>
   follow_pages remote acc =
     Some (Inr \<lparr>odata_deltaLink = odata_deltaLink (last (acc # pgs)),
                odata_nextLink = odata_nextLink (last (acc # pgs)),
                value_items = value_items acc @ concat (map value_items pgs)\<rparr>)"
proof (induction pgs arbitrary: acc)
  case Nil
  then show ?case by (subst follow_pages.simps) simp
next
  case (Cons pg pgs)
  from Cons.prems obtain l where l: "truthy (odata_nextLink acc) = Some l"
    "fetchJson remote ''GET'' (Some l) = Inr pg" "page_chain remote (odata_nextLink pg) pgs"
    by (auto split: option.splits)
  let ?acc' = "acc\<lparr>value_items := value_items acc @ value_items pg,
                    odata_deltaLink := odata_deltaLink pg,
                    odata_nextLink := odata_nextLink pg\<rparr>"
  have "page_chain remote (odata_nextLink ?acc') pgs" using l(3) by simp
  from Cons.IH [OF this] have "follow_pages remote ?acc' =
     Some (Inr \<lparr>odata_deltaLink = odata_deltaLink (last (?acc' # pgs)),
                odata_nextLink = odata_nextLink (last (?acc' # pgs)),
                value_items = value_items ?acc' @ concat (map value_items pgs)\<rparr>)" .
  then show ?case using l(1,2)
    by (subst follow_pages.simps) (cases pgs; simp)
qed

lemma set_first_occurrences: "set (first_occurrences xs) = set xs"
  by (induction xs) auto

lemma distinct_first_occurrences: "distinct (first_occurrences xs)"
  by (induction xs) (auto simp: set_first_occurrences)

lemma map_of_Map_set: "map_of (Map_set k v m) = (map_of m)(k \<mapsto> v)"
  by (induction m) (auto simp: fun_eq_iff)

lemma keys_Map_set:
  "map fst (Map_set k v m) = (if k \<in> fst ` set m then map fst m else map fst m @ [k])"
proof (induction m)
  case Nil
  then show ?case by simp
next
  case (Cons p m)
  then show ?case by (cases p) force
qed

lemma keyset_Map_set: "fst ` set (Map_set k v m) = insert k (fst ` set m)"
proof -
  have "set (map fst (Map_set k v m)) = insert k (set (map fst m))"
    unfolding keys_Map_set by auto
  then show ?thesis by simp
qed

lemma set_Map_set: "set (Map_set k v m) \<subseteq> insert (k, v) (set m)"
  by (induction m) (auto split: if_splits)

lemma entries_Map_set:
  assumes "\<forall>e\<in>set m. fst e = item_id (snd e)"
  shows "\<forall>e\<in>set (Map_set (item_id x) x m). fst e = item_id (snd e)"
proof
  fix e assume "e \<in> set (Map_set (item_id x) x m)"
  with set_Map_set [of "item_id x" x m] have "e = (item_id x, x) \<or> e \<in> set m" by auto
  with assms show "fst e = item_id (snd e)" by auto
qed

lemma keys_foldl_Map_set:
  "map fst (foldl (\<lambda>m item. Map_set (item_id item) item m) m xs) =
     map fst m @ filter (\<lambda>k. k \<notin> fst ` set m) (first_occurrences (map item_id xs))"
proof (induction xs arbitrary: m)
  case Nil
  then show ?case by simp
next
  case (Cons x xs)
  show ?case
    unfolding foldl_Cons Cons.IH keyset_Map_set
    by (auto simp: keys_Map_set intro!: filter_cong)
qed

lemma entries_foldl_Map_set:
  "\<forall>e\<in>set m. fst e = item_id (snd e) \<Longrightarrow>
   \<forall>e\<in>set (foldl (\<lambda>m item. Map_set (item_id item) item m) m xs). fst e = item_id (snd e)"
proof (induction xs arbitrary: m)
  case Nil
  then show ?case by simp
next
  case (Cons x xs)
  from Cons.IH [OF entries_Map_set [OF Cons.prems]] show ?case by simp
qed

lemma map_of_foldl_Map_set:
  "map_of (foldl (\<lambda>m item. Map_set (item_id item) item m) m xs) =
     map_of m ++ map_of (rev (map (\<lambda>item. (item_id item, item)) xs))"
proof (induction xs arbitrary: m)
  case Nil
  then show ?case by simp
next
  case (Cons x xs)
  show ?case
    unfolding foldl_Cons Cons.IH
    by (simp add: map_of_Map_set fun_eq_iff map_add_def split: option.splits)
qed

lemma map_of_rev_last:
  "map_of (rev (map (\<lambda>item. (item_id item, item)) xs)) k =
     (if k \<in> item_id ` set xs then Some (last (filter (\<lambda>item. item_id item = k) xs)) else None)"
proof (induction xs)
  case Nil
  then show ?case by simp
next
  case (Cons x xs)
  then show ?case
    by (auto simp: map_add_def filter_empty_conv split: option.splits)
qed


lemma results_new_DeltaResultInteractor:
  fixes res dateHeader now
  defines "result \<equiv> new_DeltaResultInteractor res dateHeader now"
  shows "map fst (results result) = first_occurrences (map item_id (value_items res))"
    and "map_of (results result) k =
      (if k \<in> item_id ` set (value_items res)
       then Some (last (filter (\<lambda>item. item_id item = k) (value_items res))) else None)"
    and "map item_id (iterator result) = first_occurrences (map item_id (value_items res))"
    and "\<forall>v\<in>set (iterator result).
      v = last (filter (\<lambda>item. item_id item = item_id v) (value_items res))"
proof -
  let ?rs = "foldl (\<lambda>m item. Map_set (item_id item) item m) [] (value_items res)"
  have r: "results result = ?rs" by (simp add: result_def new_DeltaResultInteractor_def)
  show k: "map fst (results result) = first_occurrences (map item_id (value_items res))"
    unfolding r using keys_foldl_Map_set [of "[]" "value_items res"] by simp
  show m: "map_of (results result) k =
      (if k \<in> item_id ` set (value_items res)
       then Some (last (filter (\<lambda>item. item_id item = k) (value_items res))) else None)" for k
    unfolding r map_of_foldl_Map_set by (simp add: map_of_rev_last)
  have e: "\<forall>e\<in>set (results result). fst e = item_id (snd e)"
    unfolding r by (rule entries_foldl_Map_set) simp
  then have "map (item_id \<circ> snd) (results result) = map fst (results result)"
    by (intro map_cong) auto
  then show "map item_id (iterator result) = first_occurrences (map item_id (value_items res))"
    using k by (simp add: iterator_def)
  have d: "distinct (map fst (results result))"
    unfolding k by (rule distinct_first_occurrences)
  show "\<forall>v\<in>set (iterator result).
      v = last (filter (\<lambda>item. item_id item = item_id v) (value_items res))"
  proof
    fix v assume "v \<in> set (iterator result)"
    then obtain key where kv: "(key, v) \<in> set (results result)"
      by (auto simp: iterator_def)
    with e have key: "key = item_id v" by auto
    from map_of_is_SomeI [OF d kv] m [of key]
    show "v = last (filter (\<lambda>item. item_id item = item_id v) (value_items res))"
      unfolding key by (simp split: if_splits)
  qed
qed

lemma route_not_absolute: "\<not> startsWith (''drives/'' @ rest) ''https:''"
  by (simp add: startsWith_def)

lemma fetchJson_single_request:
  "\<not> startsWith route ''https:'' \<Longrightarrow>
   fetchJson remote ''GET'' (Some route) = single_request remote route"
  by (simp add: fetchJson_def fetch_def single_request_def split: reply.splits)

text \<open>
  Claim C6, as the code has it. On the delta feed, where the first response is followed by
  a finite sequence of pages, \<^verbatim>\<open>loadDelta\<close> follows them all and materializes one
  response: the items of all pages in the order the service returned them, and the delta
  link of the last page. Its caller receives the interactor built from this response,
  whose cursor is that delta link and which holds the items by id: every id once, in the
  order of the first occurrences, each with the last item that came under it. The
  listings \<^verbatim>\<open>getNestedChildren\<close>, \<^verbatim>\<open>getRootChildren\<close> and \<^verbatim>\<open>getOwnDrives\<close> make one
  request and return the body of its response as it is: the first page, with no next link
  followed.
\<close>

theorem loadDelta_follows_pages:
  "(fetch remote ''GET'' (Some route) = Inr res \<and>
    page_chain remote (odata_nextLink (json res)) pgs \<longrightarrow>
      (let response = materialized (json res # pgs);
           result = new_DeltaResultInteractor response (date res) now
       in follow_pages remote (json res) = Some (Inr response) \<and>
          value_items response = concat (map value_items (json res # pgs)) \<and>
          odata_deltaLink response = odata_deltaLink (last (json res # pgs)) \<and>
          loadDelta remote now (Some route) = Some (Inr result) \<and>
          next_link result = odata_deltaLink (last (json res # pgs)) \<and>
          map item_id (iterator result) = first_occurrences (map item_id (value_items response)) \<and>
          (\<forall>v\<in>set (iterator result).
             v = last (filter (\<lambda>item. item_id item = item_id v) (value_items response))))) \<and>
   getNestedChildren listing driveId itemId =
     single_request listing (''drives/'' @ driveId @ ''/items/'' @ itemId @ ''/children'') \<and>
   getRootChildren listing' driveId' =
     single_request listing' (''drives/'' @ driveId' @ ''/root/children'') \<and>
   getOwnDrives listing'' = single_request listing'' ''me/drives''"
proof (intro conjI impI)
  assume a: "fetch remote ''GET'' (Some route) = Inr res \<and>
    page_chain remote (odata_nextLink (json res)) pgs"
  then have f: "follow_pages remote (json res) = Some (Inr (materialized (json res # pgs)))"
    using follow_pages_chain [of remote "json res" pgs] by (simp add: materialized_def)
  then have l: "loadDelta remote now (Some route) =
      Some (Inr (new_DeltaResultInteractor (materialized (json res # pgs)) (date res) now))"
    using a by (simp add: loadDelta_def)
  have n: "next_link (new_DeltaResultInteractor (materialized (json res # pgs)) (date res) now) =
      odata_deltaLink (last (json res # pgs))"
    by (simp add: new_DeltaResultInteractor_def materialized_def)
  have v: "value_items (materialized (json res # pgs)) = concat (map value_items (json res # pgs))"
    "odata_deltaLink (materialized (json res # pgs)) = odata_deltaLink (last (json res # pgs))"
    by (simp_all add: materialized_def)
  note c = results_new_DeltaResultInteractor(3,4)
    [of "materialized (json res # pgs)" "date res" now]
  from f l n v c show "let response = materialized (json res # pgs);
           result = new_DeltaResultInteractor response (date res) now
       in follow_pages remote (json res) = Some (Inr response) \<and>
          value_items response = concat (map value_items (json res # pgs)) \<and>
          odata_deltaLink response = odata_deltaLink (last (json res # pgs)) \<and>
          loadDelta remote now (Some route) = Some (Inr result) \<and>
          next_link result = odata_deltaLink (last (json res # pgs)) \<and>
          map item_id (iterator result) = first_occurrences (map item_id (value_items response)) \<and>
          (\<forall>v\<in>set (iterator result).
             v = last (filter (\<lambda>item. item_id item = item_id v) (value_items response)))"
    unfolding Let_def by (intro conjI)
next
  show "getNestedChildren listing driveId itemId =
     single_request listing (''drives/'' @ driveId @ ''/items/'' @ itemId @ ''/children'')"
    unfolding getNestedChildren_def by (rule fetchJson_single_request) (rule route_not_absolute)
  show "getRootChildren listing' driveId' =
     single_request listing' (''drives/'' @ driveId' @ ''/root/children'')"
    unfolding getRootChildren_def by (rule fetchJson_single_request) (rule route_not_absolute)
  show "getOwnDrives listing'' = single_request listing'' ''me/drives''"
    unfolding getOwnDrives_def by (rule fetchJson_single_request) (simp add: startsWith_def)
qed

lemma dup_fetch:
  "fetch service_3 ''GET'' (Some ''https://dup/page1'') =
     Inr \<lparr>status = 200, date = Some 1000, json = dup_page_1\<rparr>"
  by code_simp

lemma dup_chain: "page_chain service_3 (odata_nextLink dup_page_1) [dup_page_2]"
  by code_simp

lemma dup_load: "loadDelta service_3 5 (Some ''https://dup/page1'') = Some (Inr dup_result)"
  by code_simp

lemma dup_items:
  "value_items (materialized [dup_page_1, dup_page_2]) = [item_B, item_C, item_B2, old_item]"
  by (simp add: materialized_def dup_page_1_def dup_page_2_def)

lemma listing_first_page: "getNestedChildren service_0 ''d'' ''F1'' = Inr list_page_1"
  by code_simp

theorem loadDelta_follows_pages_witness:
  "fetch service_3 ''GET'' (Some ''https://dup/page1'') =
     Inr \<lparr>status = 200, date = Some 1000, json = dup_page_1\<rparr> \<and>
   page_chain service_3 (odata_nextLink dup_page_1) [dup_page_2] \<and>
   follow_pages service_3 dup_page_1 = Some (Inr (materialized [dup_page_1, dup_page_2])) \<and>
   value_items (materialized [dup_page_1, dup_page_2]) = [item_B, item_C, item_B2, old_item] \<and>
   loadDelta service_3 5 (Some ''https://dup/page1'') = Some (Inr dup_result) \<and>
   next_link dup_result = Some ''https://dup/1'' \<and>
   map item_id (iterator dup_result) = [''F1'', ''I1'', ''I3''] \<and>
   iterator dup_result = [item_B2, item_C, old_item] \<and>
   single_request service_0 ''drives/d/items/F1/children'' = Inr list_page_1 \<and>
   getNestedChildren service_0 ''d'' ''F1'' = Inr list_page_1"
proof -
  have n: "new_DeltaResultInteractor (materialized [dup_page_1, dup_page_2]) (Some 1000) 5 =
      dup_result"
    by code_simp
  have i: "iterator dup_result = [item_B2, item_C, old_item]"
    "next_link dup_result = Some ''https://dup/1''"
    "map item_id (iterator dup_result) = [''F1'', ''I1'', ''I3'']"
    by (simp_all add: dup_result_def iterator_def item_B2_def item_B_def item_C_def old_item_def)
  note t = loadDelta_follows_pages [where remote = service_3 and route = "''https://dup/page1''"
      and res = "\<lparr>status = 200, date = Some 1000, json = dup_page_1\<rparr>"
      and pgs = "[dup_page_2]" and now = 5 and listing = service_0 and driveId = "''d''"
      and itemId = "''F1''" and listing' = service_0 and driveId' = "''d''"
      and listing'' = service_0, unfolded Let_def]
  from t dup_fetch dup_chain
  have f: "follow_pages service_3 dup_page_1 = Some (Inr (materialized [dup_page_1, dup_page_2]))"
    by simp
  from t listing_first_page
  have s: "single_request service_0 ''drives/d/items/F1/children'' = Inr list_page_1"
    by simp
  from dup_fetch dup_chain f dup_items dup_load i s listing_first_page
  show ?thesis by (intro conjI)
qed

text \<open>
  Claim C6, as stated, fails twice. On a listing: the children of the folder come in two
  pages, and the caller of \<^verbatim>\<open>getNestedChildren\<close> gets the first page, with its next link
  unfollowed, and not the items of both. And on the delta feed when an id recurs: the two
  pages hold four items, and what the caller of \<^verbatim>\<open>loadDelta\<close> receives yields three, the
  folder once, as the second page has it.
\<close>

theorem paged_responses_counterexample:
  "getNestedChildren service_0 ''d'' ''F1'' = Inr list_page_1 \<and>
   odata_nextLink list_page_1 = Some ''https://list/page2'' \<and>
   page_chain service_0 (odata_nextLink list_page_1) [list_page_2] \<and>
   value_items list_page_1 = [item_C] \<and>
   value_items (materialized [list_page_1, list_page_2]) = [item_C, old_item] \<and>
   fetch service_3 ''GET'' (Some ''https://dup/page1'') =
     Inr \<lparr>status = 200, date = Some 1000, json = dup_page_1\<rparr> \<and>
   page_chain service_3 (odata_nextLink dup_page_1) [dup_page_2] \<and>
   value_items (materialized [dup_page_1, dup_page_2]) = [item_B, item_C, item_B2, old_item] \<and>
   loadDelta service_3 5 (Some ''https://dup/page1'') = Some (Inr dup_result) \<and>
   iterator dup_result = [item_B2, item_C, old_item]"
proof -
  have c: "page_chain service_0 (odata_nextLink list_page_1) [list_page_2]" by code_simp
  have l: "odata_nextLink list_page_1 = Some ''https://list/page2''"
    "value_items list_page_1 = [item_C]"
    "value_items (materialized [list_page_1, list_page_2]) = [item_C, old_item]"
    by (simp_all add: materialized_def list_page_1_def list_page_2_def)
  have i: "iterator dup_result = [item_B2, item_C, old_item]"
    by (simp add: dup_result_def iterator_def)
  from listing_first_page l(1) c l(2,3) dup_fetch dup_chain dup_items dup_load i
  show ?thesis by (intro conjI)
qed

section \<open>The rounds of the watch loop\<close>

lemma those_map_Some:
  "those (map f xs) = Some ys \<Longrightarrow>
     length ys = length xs \<and> (\<forall>i<length xs. f (xs ! i) = Some (ys ! i))"
proof (induction xs arbitrary: ys)
  case Nil
  then show ?case by simp
next
  case (Cons x xs)
  then show ?case
    by (auto split: option.splits simp: nth_Cons split: nat.splits)
qed

lemma change_of_never_Changed: "change_of nxt v = Some (t, p) \<Longrightarrow> t \<noteq> Changed"
  by (auto simp: change_of_def new_Date_truthy_def split: option.splits if_splits)

lemma watch_loop_head_batch:
  assumes "watch_loop prev ct (r # rs) = (b # bs, out)"
  shows "\<not> ct \<and> \<not> cancel_in_sleep r \<and> \<not> cancel_in_fetch r \<and>
     (\<exists>nxt. loadDelta (service r) (clock r) (next_link prev) = Some (Inr nxt) \<and>
        changes_of nxt = Some b \<and> watch_loop nxt (cancel_in_yield r) rs = (bs, out))"
  using assms by (auto split: if_splits option.splits sum.splits prod.splits)

lemma watch_loop_cancelled_head: "watch_loop prev True rs = ([], Returned)"
  by (cases rs) simp_all

text \<open>
  An execution that reaches the loop head after some rounds has yielded one batch in each
  of them, and goes on from there as the loop does from that state.
\<close>

lemma watch_loop_append:
  "loop_state first ct0 pre = Some (prev, ct) \<Longrightarrow>
     length (fst (watch_loop first ct0 pre)) = length pre \<and>
     watch_loop first ct0 (pre @ rest) =
       (fst (watch_loop first ct0 pre) @ fst (watch_loop prev ct rest),
        snd (watch_loop prev ct rest))"
proof (induction pre arbitrary: first ct0)
  case Nil
  then show ?case by (cases ct0; cases rest; simp)
next
  case (Cons r pre)
  from Cons.prems obtain nxt changes where s: "\<not> ct0" "\<not> cancel_in_sleep r"
    "loadDelta (service r) (clock r) (next_link first) = Some (Inr nxt)"
    "\<not> cancel_in_fetch r" "changes_of nxt = Some changes"
    "loop_state nxt (cancel_in_yield r) pre = Some (prev, ct)"
    by (auto split: if_splits option.splits sum.splits)
  from Cons.IH [OF s(6)] s(1-5) show ?case
    by (simp add: case_prod_unfold)
qed

lemma watch_loop_cancel_trace:
  assumes "cancel_in_sleep r \<or> cancel_in_fetch r"
  shows "fst (watch_loop prev ct (pre @ r # post)) = fst (watch_loop prev ct pre)"
proof (induction pre arbitrary: prev ct)
  case Nil
  show ?case using assms by (auto split: option.splits sum.splits)
next
  case (Cons x pre)
  show ?case using Cons.IH
    by (auto split: option.splits sum.splits simp: case_prod_unfold)
qed

lemma watch_loop_cursor_only:
  "next_link a = next_link b \<Longrightarrow> watch_loop a ct rs = watch_loop b ct rs"
  by (cases rs) simp_all

lemma watch_loop_length: "length (fst (watch_loop prev ct rs)) \<le> length rs"
proof (induction rs arbitrary: prev ct)
  case Nil
  then show ?case by simp
next
  case (Cons r rs)
  show ?case
  proof (cases "watch_loop prev ct (r # rs)")
    case (Pair bs out)
    show ?thesis
    proof (cases bs)
      case Nil
      with Pair show ?thesis by simp
    next
      case (Cons b bs')
      from watch_loop_head_batch [OF Pair [unfolded Cons]]
      obtain nxt where "watch_loop nxt (cancel_in_yield r) rs = (bs', out)" by blast
      with Cons.IH [of nxt "cancel_in_yield r"] Pair Cons show ?thesis by simp
    qed
  qed
qed

lemma round_1_load:
  "loadDelta (service round_1) (clock round_1) (next_link previous_round) = Some (Inr next_round)"
  by code_simp

lemma round_1_run:
  "watch_loop previous_round False [round_1] =
     ([[(Deleted, ''a.txt''), (Created, ''Docs/old.txt'')]], Running)"
  by code_simp

lemma round_2_load:
  "loadDelta (service round_2) (clock round_2) (next_link next_round) = Some (Inr last_round)"
  by code_simp

lemma round_1_state: "loop_state previous_round False [round_1] = Some (next_round, False)"
  by code_simp

text \<open>
  Every batch an execution yields comes from the load of one round of the loop: batch
  number \<open>k\<close> is the list of changes of the snapshot loaded in round number \<open>k\<close>, the
  loop having gone through the rounds before it.
\<close>

lemma watch_loop_batch_origin:
  "k < length (fst (watch_loop first ct0 rounds)) \<Longrightarrow>
     \<exists>prev ct nxt. loop_state first ct0 (take k rounds) = Some (prev, ct) \<and>
       k < length rounds \<and>
       loadDelta (service (rounds ! k)) (clock (rounds ! k)) (next_link prev) = Some (Inr nxt) \<and>
       changes_of nxt = Some (fst (watch_loop first ct0 rounds) ! k)"
proof (induction rounds arbitrary: first ct0 k)
  case Nil
  then show ?case by simp
next
  case (Cons r rs)
  obtain bs out where run: "watch_loop first ct0 (r # rs) = (bs, out)"
    by (cases "watch_loop first ct0 (r # rs)")
  with Cons.prems obtain b bs' where bs: "bs = b # bs'" by (cases bs) auto
  from watch_loop_head_batch [OF run [unfolded bs]]
  obtain nxt where h: "\<not> ct0" "\<not> cancel_in_sleep r" "\<not> cancel_in_fetch r"
    "loadDelta (service r) (clock r) (next_link first) = Some (Inr nxt)"
    "changes_of nxt = Some b" "watch_loop nxt (cancel_in_yield r) rs = (bs', out)"
    by blast
  show ?case
  proof (cases k)
    case 0
    then show ?thesis using h run bs by auto
  next
    case (Suc j)
    with Cons.prems run bs h(6) have "j < length (fst (watch_loop nxt (cancel_in_yield r) rs))"
      by simp
    from Cons.IH [OF this] obtain prev ct nxt' where
      "loop_state nxt (cancel_in_yield r) (take j rs) = Some (prev, ct)" "j < length rs"
      "loadDelta (service (rs ! j)) (clock (rs ! j)) (next_link prev) = Some (Inr nxt')"
      "changes_of nxt' = Some (fst (watch_loop nxt (cancel_in_yield r) rs) ! j)"
      by blast
    then show ?thesis using Suc h run bs by simp
  qed
qed

text \<open>
  Claim C1 at a concrete round. The snapshot before the round was taken at time 1000; the
  round reports \<^verbatim>\<open>old.txt\<close>, created at time 500 and not deleted. The claim puts it under
  Changed; the loop yields Created for it (the second event of the batch).
\<close>

theorem old_item_classified_created:
  "lastUpdated previous_round = 1000 \<and> createdDateTime old_item = 500 \<and>
   \<not> isNew previous_round old_item \<and> deleted old_item = None \<and>
   loadDelta (service round_1) (clock round_1) (next_link previous_round) =
     Some (Inr next_round) \<and>
   iterator next_round = [tombstone_C, old_item] \<and>
   watch_loop previous_round False [round_1] =
     ([[(Deleted, ''a.txt''), (Created, ''Docs/old.txt'')]], Running)"
  using round_1_load round_1_run
  by (simp add: previous_round_def old_item_def next_round_def isNew_def iterator_def)

text \<open>
  Claim C2, as the code has it. In every round of an execution, for every item of the new
  snapshot whose deleted flag is set, the batch of the round holds at the item's position
  a Deleted event whose path is the item's path resolved in the new snapshot of this
  round, the one the item itself came in.
\<close>

theorem deleted_path_from_new_snapshot:
  assumes "loop_state first ct0 pre = Some (prev, ct)"
    and "watch_loop prev ct (r # rs) = (b # bs, out)"
    and "loadDelta (service r) (clock r) (next_link prev) = Some (Inr nxt)"
    and "i < length (iterator nxt)" and "deleted (iterator nxt ! i) \<noteq> None"
  shows "\<exists>p. getPathForItem (results nxt) (iterator nxt ! i) = Some p \<and>
     i < length b \<and> b ! i = (Deleted, p) \<and>
     fst (watch_loop first ct0 (pre @ r # rs)) ! length pre = b"
proof -
  from watch_loop_head_batch [OF assms(2)] assms(3) have "changes_of nxt = Some b" by auto
  then have *: "length b = length (iterator nxt)"
     "change_of nxt (iterator nxt ! i) = Some (b ! i)"
    using those_map_Some [of "change_of nxt" "iterator nxt" b] assms(4)
    by (auto simp: changes_of_def)
  from watch_loop_append [OF assms(1), of "r # rs"] assms(2)
  have "fst (watch_loop first ct0 (pre @ r # rs)) ! length pre = b"
    by (simp add: nth_append)
  with * show ?thesis using assms(4,5)
    by (auto simp: change_of_def split: option.splits)
qed

theorem deleted_path_from_new_snapshot_witness:
  "loop_state previous_round False [round_1] = Some (next_round, False) \<and>
   watch_loop next_round False [round_2] = ([[(Deleted, ''Docs/old.txt'')]], Running) \<and>
   loadDelta (service round_2) (clock round_2) (next_link next_round) = Some (Inr last_round) \<and>
   0 < length (iterator last_round) \<and> deleted (iterator last_round ! 0) \<noteq> None \<and>
   getPathForItem (results last_round) (iterator last_round ! 0) = Some ''Docs/old.txt'' \<and>
   fst (watch_loop previous_round False ([round_1] @ [round_2])) ! 1 ! 0 =
     (Deleted, ''Docs/old.txt'')"
proof -
  have w: "watch_loop next_round False [round_2] = ([(Deleted, ''Docs/old.txt'')] # [], Running)"
    by code_simp
  have i: "0 < length (iterator last_round)" "deleted (iterator last_round ! 0) \<noteq> None"
    by (simp_all add: last_round_def iterator_def)
  have g: "getPathForItem (results last_round) (iterator last_round ! 0) = Some ''Docs/old.txt''"
    by code_simp
  from deleted_path_from_new_snapshot [OF round_1_state w round_2_load i] g
  have "fst (watch_loop previous_round False ([round_1] @ [round_2])) ! 1 ! 0 =
     (Deleted, ''Docs/old.txt'')"
    by auto
  with round_1_state w round_2_load i g show ?thesis by simp
qed

text \<open>
  Claim C2, as stated, fails: the round reports \<^verbatim>\<open>a.txt\<close> deleted, with the id of its
  parent only, and the folder is not in the new snapshot. The Deleted event carries the
  path \<^verbatim>\<open>a.txt\<close>, as the new snapshot resolves it; the snapshot before this round
  resolves the item to \<^verbatim>\<open>Docs/a.txt\<close>.
\<close>

theorem deleted_path_counterexample:
  "deleted tombstone_C \<noteq> None \<and>
   loadDelta (service round_1) (clock round_1) (next_link previous_round) =
     Some (Inr next_round) \<and>
   iterator next_round = [tombstone_C, old_item] \<and>
   fst (watch_loop previous_round False [round_1]) =
     [[(Deleted, ''a.txt''), (Created, ''Docs/old.txt'')]] \<and>
   getPathForItem (results next_round) tombstone_C = Some ''a.txt'' \<and>
   getPathForItem (results previous_round) tombstone_C = Some ''Docs/a.txt''"
proof -
  have "getPathForItem (results next_round) tombstone_C = Some ''a.txt''" by code_simp
  moreover have "getPathForItem (results previous_round) tombstone_C = Some ''Docs/a.txt''"
    by code_simp
  ultimately show ?thesis using round_1_load round_1_run
    by (simp add: tombstone_C_def next_round_def iterator_def)
qed

text \<open>
  Claim C7. Let an execution reach the loop head after some rounds, each of which has
  yielded its batch. If cancellation has been requested by then (before the loop, or
  while the generator was suspended at its last \<^verbatim>\<open>yield\<close>), or is requested during the
  sleep of the next round, or while the fetch of the next round is awaited and the fetch
  comes back with a result, then the generator returns and the batches of the execution
  are those of the rounds before: no batch is yielded afterwards, whatever the later
  rounds hold, and the result of the fetch is dropped. A round with a request during its
  sleep or its fetch never adds a batch, also when the fetch fails.
\<close>

theorem no_batch_after_cancellation:
  assumes "loop_state first ct0 pre = Some (prev, ct)"
  shows "length (fst (watch_loop first ct0 pre)) = length pre \<and>
    (ct \<longrightarrow>
       watch_loop first ct0 (pre @ post) = (fst (watch_loop first ct0 pre), Returned)) \<and>
    (\<not> ct \<and> cancel_in_sleep r \<longrightarrow>
       watch_loop first ct0 (pre @ r # post) = (fst (watch_loop first ct0 pre), Returned)) \<and>
    (\<not> ct \<and> cancel_in_fetch r \<and>
     loadDelta (service r) (clock r) (next_link prev) = Some (Inr nxt) \<longrightarrow>
       watch_loop first ct0 (pre @ r # post) = (fst (watch_loop first ct0 pre), Returned)) \<and>
    (cancel_in_sleep r' \<or> cancel_in_fetch r' \<longrightarrow>
       fst (watch_loop first' ct0' (pre' @ r' # post)) = fst (watch_loop first' ct0' pre'))"
proof (intro conjI impI)
  show "length (fst (watch_loop first ct0 pre)) = length pre"
    using watch_loop_append [OF assms] by simp
  show "watch_loop first ct0 (pre @ post) = (fst (watch_loop first ct0 pre), Returned)" if ct
    using watch_loop_append [OF assms, of post] that by (simp add: watch_loop_cancelled_head)
  show "watch_loop first ct0 (pre @ r # post) = (fst (watch_loop first ct0 pre), Returned)"
    if "\<not> ct \<and> cancel_in_sleep r"
    using watch_loop_append [OF assms, of "r # post"] that by simp
  show "watch_loop first ct0 (pre @ r # post) = (fst (watch_loop first ct0 pre), Returned)"
    if "\<not> ct \<and> cancel_in_fetch r \<and>
      loadDelta (service r) (clock r) (next_link prev) = Some (Inr nxt)"
    using watch_loop_append [OF assms, of "r # post"] that by simp
  show "fst (watch_loop first' ct0' (pre' @ r' # post)) = fst (watch_loop first' ct0' pre')"
    if "cancel_in_sleep r' \<or> cancel_in_fetch r'"
    using that by (rule watch_loop_cancel_trace)
qed

theorem no_batch_after_cancellation_witness:
  "loop_state previous_round False [round_1] = Some (next_round, False) \<and>
   cancel_in_sleep (round_2\<lparr>cancel_in_sleep := True\<rparr>) \<and>
   watch_loop previous_round False ([round_1] @ round_2\<lparr>cancel_in_sleep := True\<rparr> # [round_2]) =
     ([[(Deleted, ''a.txt''), (Created, ''Docs/old.txt'')]], Returned) \<and>
   cancel_in_fetch (round_2\<lparr>cancel_in_fetch := True\<rparr>) \<and>
   loadDelta (service (round_2\<lparr>cancel_in_fetch := True\<rparr>))
     (clock (round_2\<lparr>cancel_in_fetch := True\<rparr>)) (next_link next_round) =
     Some (Inr last_round) \<and>
   watch_loop previous_round False ([round_1] @ round_2\<lparr>cancel_in_fetch := True\<rparr> # [round_2]) =
     ([[(Deleted, ''a.txt''), (Created, ''Docs/old.txt'')]], Returned) \<and>
   loop_state previous_round False [round_1\<lparr>cancel_in_yield := True\<rparr>] =
     Some (next_round, True) \<and>
   watch_loop previous_round False ([round_1\<lparr>cancel_in_yield := True\<rparr>] @ [round_2]) =
     ([[(Deleted, ''a.txt''), (Created, ''Docs/old.txt'')]], Returned) \<and>
   watch_loop previous_round False ([round_1] @ [round_2]) =
     ([[(Deleted, ''a.txt''), (Created, ''Docs/old.txt'')], [(Deleted, ''Docs/old.txt'')]],
      Running)"
proof -
  have y: "loop_state previous_round False [round_1\<lparr>cancel_in_yield := True\<rparr>] =
     Some (next_round, True)"
    by code_simp
  have b: "fst (watch_loop previous_round False [round_1]) =
     [[(Deleted, ''a.txt''), (Created, ''Docs/old.txt'')]]"
    using round_1_run by simp
  have by': "fst (watch_loop previous_round False [round_1\<lparr>cancel_in_yield := True\<rparr>]) =
     [[(Deleted, ''a.txt''), (Created, ''Docs/old.txt'')]]"
    by code_simp
  have l: "loadDelta (service (round_2\<lparr>cancel_in_fetch := True\<rparr>))
     (clock (round_2\<lparr>cancel_in_fetch := True\<rparr>)) (next_link next_round) = Some (Inr last_round)"
    using round_2_load by simp
  have full: "watch_loop previous_round False ([round_1] @ [round_2]) =
     ([[(Deleted, ''a.txt''), (Created, ''Docs/old.txt'')], [(Deleted, ''Docs/old.txt'')]],
      Running)"
    by code_simp
  from no_batch_after_cancellation [OF round_1_state,
      where post = "[round_2]" and r = "round_2\<lparr>cancel_in_sleep := True\<rparr>"]
    no_batch_after_cancellation [OF round_1_state,
      where post = "[round_2]" and r = "round_2\<lparr>cancel_in_fetch := True\<rparr>"
        and nxt = last_round]
    no_batch_after_cancellation [OF y, where post = "[round_2]"]
    round_1_state y b by' l full
  show ?thesis by simp
qed

text \<open>
  Claim C8. The baseline never produces change events. An execution with no round of the
  loop yields nothing; an execution yields at most one batch for each round of the loop;
  every batch it yields is the list of changes of the snapshot loaded in a round of the
  loop, the second load or a later one; and the batches do not depend on the items or the
  time of the baseline, which only hands its cursor to the first round.
\<close>

theorem baseline_not_emitted:
  "fst (watch remote0 now0 driveId ct0 []) = [] \<and>
   length (fst (watch remote0 now0 driveId ct0 rounds)) \<le> length rounds \<and>
   (loadDelta remote0 now0 (Some (delta_route driveId)) = Some (Inr baseline) \<longrightarrow>
      watch remote0 now0 driveId ct0 rounds =
        watch_loop (baseline\<lparr>results := any_items, lastUpdated := any_time\<rparr>) ct0 rounds) \<and>
   (loadDelta remote0 now0 (Some (delta_route driveId)) = Some (Inr baseline) \<and>
    k < length (fst (watch remote0 now0 driveId ct0 rounds)) \<longrightarrow>
      (\<exists>prev ct nxt. loop_state baseline ct0 (take k rounds) = Some (prev, ct) \<and>
         k < length rounds \<and>
         loadDelta (service (rounds ! k)) (clock (rounds ! k)) (next_link prev) =
           Some (Inr nxt) \<and>
         changes_of nxt = Some (fst (watch remote0 now0 driveId ct0 rounds) ! k)))"
proof (intro conjI impI)
  show "fst (watch remote0 now0 driveId ct0 []) = []"
    by (simp add: watch_def split: option.splits sum.splits)
  show "length (fst (watch remote0 now0 driveId ct0 rounds)) \<le> length rounds"
    using watch_loop_length by (simp add: watch_def split: option.splits sum.splits)
  show "watch remote0 now0 driveId ct0 rounds =
        watch_loop (baseline\<lparr>results := any_items, lastUpdated := any_time\<rparr>) ct0 rounds"
    if "loadDelta remote0 now0 (Some (delta_route driveId)) = Some (Inr baseline)"
    using that
      watch_loop_cursor_only [of baseline "baseline\<lparr>results := any_items, lastUpdated := any_time\<rparr>"]
    by (simp add: watch_def)
  show "\<exists>prev ct nxt. loop_state baseline ct0 (take k rounds) = Some (prev, ct) \<and>
         k < length rounds \<and>
         loadDelta (service (rounds ! k)) (clock (rounds ! k)) (next_link prev) =
           Some (Inr nxt) \<and>
         changes_of nxt = Some (fst (watch remote0 now0 driveId ct0 rounds) ! k)"
    if "loadDelta remote0 now0 (Some (delta_route driveId)) = Some (Inr baseline) \<and>
      k < length (fst (watch remote0 now0 driveId ct0 rounds))"
    using that watch_loop_batch_origin [of k baseline ct0 rounds]
    by (auto simp: watch_def)
qed

theorem baseline_not_emitted_witness:
  "loadDelta service_0 1000 (Some (delta_route ''d'')) = Some (Inr previous_round) \<and>
   iterator previous_round = [item_B, item_C] \<and>
   fst (watch service_0 1000 ''d'' False []) = [] \<and>
   watch service_0 1000 ''d'' False [round_1] =
     ([[(Deleted, ''a.txt''), (Created, ''Docs/old.txt'')]], Running) \<and>
   watch_loop (previous_round\<lparr>results := [], lastUpdated := 0\<rparr>) False [round_1] =
     ([[(Deleted, ''a.txt''), (Created, ''Docs/old.txt'')]], Running) \<and>
   changes_of next_round = Some (fst (watch service_0 1000 ''d'' False [round_1]) ! 0)"
proof -
  have l: "loadDelta service_0 1000 (Some (delta_route ''d'')) = Some (Inr previous_round)"
    by code_simp
  have i: "iterator previous_round = [item_B, item_C]"
    by (simp add: previous_round_def iterator_def)
  have c: "changes_of next_round = Some [(Deleted, ''a.txt''), (Created, ''Docs/old.txt'')]"
    by code_simp
  note t = baseline_not_emitted [where ?remote0.0 = service_0 and ?now0.0 = 1000
      and driveId = "''d''" and ?ct0.0 = False and rounds = "[round_1]"
      and baseline = previous_round and any_items = "[]" and any_time = 0 and k = 0]
  from t have e: "fst (watch service_0 1000 ''d'' False []) = []" by (rule conjunct1)
  from t l have u: "watch service_0 1000 ''d'' False [round_1] =
     watch_loop (previous_round\<lparr>results := [], lastUpdated := 0\<rparr>) False [round_1]"
    by blast
  have w: "watch service_0 1000 ''d'' False [round_1] =
     ([[(Deleted, ''a.txt''), (Created, ''Docs/old.txt'')]], Running)"
    using l round_1_run by (simp add: watch_def)
  from l i e w c u show ?thesis by (simp del: watch_loop.simps)
qed

section \<open>The provider: delete\<close>

lemma client_delete_swallows_404:
  "fetch remote ''DELETE'' (Some (''drives/'' @ driveId @ ''/items/root:/'' @ encodeURI filePath))
     = Inl (ResponseError 404) \<Longrightarrow>
   client_delete remote encodeURI driveId filePath = Inr ()"
  by (simp add: client_delete_def ResponseError_is_def)

lemma client_delete_rethrows:
  "fetch remote ''DELETE'' (Some (''drives/'' @ driveId @ ''/items/root:/'' @ encodeURI filePath))
     = Inl e \<Longrightarrow> e \<noteq> ResponseError 404 \<Longrightarrow>
   client_delete remote encodeURI driveId filePath = Inl e"
  by (simp add: client_delete_def ResponseError_is_def)

text \<open>
  Whatever the service answers to the request, the promise of the provider's
  \<^verbatim>\<open>delete\<close> is fulfilled once the address is parsed and the session granted.
\<close>

lemma provider_delete_fulfilled:
  "parseUri uri = Inr (driveId, filePath) \<Longrightarrow>
   fst (provider_delete (Inr accessToken) remote encodeURI uri) = Inr ()"
  by (simp add: provider_delete_def demandForFs_def)

text \<open>
  Claim C4 at a concrete call. The service answers the DELETE request with status 500.
  The client's \<^verbatim>\<open>delete\<close> throws the error, as the claim says of every error other than
  404; the provider's \<^verbatim>\<open>delete\<close> does not hand it to its caller: its promise is
  fulfilled, and the error is the rejection of a promise that nobody holds.
\<close>

theorem provider_delete_drops_error:
  "parseUri uri_d = Inr (''d'', ''Docs/a.txt'') \<and>
   client_delete service_500 (\<lambda>s. s) ''d'' ''Docs/a.txt'' = Inl (ResponseError 500) \<and>
   provider_delete (Inr ''token'') service_500 (\<lambda>s. s) uri_d =
     (Inr (), Some (ResponseError 500))"
  by code_simp

section \<open>The provider: watch\<close>

lemma undisposed_snoc: "undisposed (p\<lparr>disposed := disposed p @ [False]\<rparr>) = Suc (undisposed p)"
  by (simp add: undisposed_def)

lemma filter_Not_update:
  "h < length xs \<Longrightarrow> \<not> xs ! h \<Longrightarrow>
     Suc (length (filter Not (xs[h := True]))) = length (filter Not xs)"
proof (induction xs arbitrary: h)
  case Nil
  then show ?case by simp
next
  case (Cons x xs)
  then show ?case by (cases h) auto
qed

lemma filter_Not_pos:
  assumes "k < length xs" and "\<not> xs ! k"
  shows "0 < length (filter Not xs)"
proof -
  have "xs ! k \<in> set (filter Not xs)" using assms nth_mem [of k xs] by simp
  then show ?thesis by (rule length_pos_if_in_set)
qed

lemma distinct_filter_eq: "distinct xs \<Longrightarrow> length (filter (\<lambda>k. k = h) xs) \<le> 1"
  by (induction xs) (auto simp: filter_empty_conv)

lemma dispose_disposed: "h < length (disposed p) \<Longrightarrow> disposed p ! h \<Longrightarrow> dispose h p = p"
  by (simp add: dispose_def list_update_same_conv)

lemma disposed_dispose:
  "disposed (dispose h p) =
     (if h < length (disposed p) then (disposed p)[h := True] else disposed p)"
  by (simp add: dispose_def Let_def split: option.splits)

lemma dispose_dispose: "dispose h (dispose h p) = dispose h p"
proof (cases "h < length (disposed p)")
  case True
  then have "h < length (disposed (dispose h p))" "disposed (dispose h p) ! h"
    by (simp_all add: disposed_dispose)
  then show ?thesis by (rule dispose_disposed)
next
  case False
  then show ?thesis by (simp add: dispose_def)
qed

lemma dispose_keeps_cancelled:
  "watcher (dispose h p) \<noteq> None \<Longrightarrow> cancelled (dispose h p) = cancelled p"
  by (auto simp: dispose_def Let_def split: option.splits if_splits)

lemma inv_new: "provider_inv new_provider"
  by (simp add: provider_inv_def new_provider_def undisposed_def)

lemma provider_watch_fields:
  assumes "provider_watch session uri p = Inr (h, p')"
  shows "disposed p' = disposed p @ [False] \<and> decrements p' = decrements p \<and>
    cancelled p' = cancelled p \<and>
    (case watcher p of
       Some w \<Rightarrow> watcher p' = Some (w\<lparr>count := count w + 1\<rparr>) \<and> sources p' = sources p
     | None \<Rightarrow> watcher p' = Some \<lparr>count = 1, cts = sources p\<rparr> \<and> sources p' = Suc (sources p))"
proof (cases "watcher p")
  case None
  with assms show ?thesis
    by (cases "parseUri uri") (auto simp: provider_watch_def)
next
  case (Some w)
  with assms show ?thesis
    by (auto simp: provider_watch_def)
qed

lemma inv_watch:
  assumes "provider_inv p" and "provider_watch session uri p = Inr (h, p')"
  shows "provider_inv p'"
proof -
  note f = provider_watch_fields [OF assms(2)]
  have u: "undisposed p' = Suc (undisposed p)"
    using f by (simp add: undisposed_def)
  have s: "{k. k < length (disposed p') \<and> disposed p' ! k} =
      {k. k < length (disposed p) \<and> disposed p ! k}"
    using f by (auto simp: nth_append)
  show ?thesis
  proof (cases "watcher p")
    case None
    with assms(1) f u s show ?thesis by (simp add: provider_inv_def)
  next
    case (Some w)
    with assms(1) f u s show ?thesis by (simp add: provider_inv_def)
  qed
qed

lemma inv_dispose:
  assumes "provider_inv p"
  shows "provider_inv (dispose h p)"
proof (cases "h < length (disposed p)")
  case False
  then show ?thesis using assms by (simp add: dispose_def)
next
  case h: True
  show ?thesis
  proof (cases "disposed p ! h")
    case True
    then show ?thesis using assms h by (simp add: dispose_disposed)
  next
    case False
    from filter_Not_update [OF h False]
    have u: "Suc (length (filter Not ((disposed p)[h := True]))) = undisposed p"
      by (simp add: undisposed_def)
    then have pos: "0 < undisposed p" by simp
    with assms obtain w where w: "watcher p = Some w" "count w = int (undisposed p)"
      by (auto simp: provider_inv_def split: option.splits)
    have nin: "h \<notin> set (decrements p)" using assms False by (simp add: provider_inv_def)
    have sets: "{k. k < length (disposed p) \<and> (disposed p)[h := True] ! k} =
        insert h {k. k < length (disposed p) \<and> disposed p ! k}"
      using h by (auto simp: nth_list_update)
    show ?thesis
    proof (cases "count w - 1 = 0")
      case True
      then have "undisposed p = 1" using w by simp
      with u have "length (filter Not ((disposed p)[h := True])) = 0" by simp
      then show ?thesis using assms h False w True nin sets
        by (simp add: provider_inv_def dispose_def undisposed_def)
    next
      case F: False
      then have "1 < undisposed p" using w pos by simp
      with u have "0 < length (filter Not ((disposed p)[h := True]))"
        "int (length (filter Not ((disposed p)[h := True]))) = count w - 1"
        using w by linarith+
      then show ?thesis using assms h False w F nin sets
        by (simp add: provider_inv_def dispose_def undisposed_def)
    qed
  qed
qed

lemma inv_step: "provider_inv p \<Longrightarrow> provider_inv (step session p x)"
  by (cases x) (auto intro: inv_dispose inv_watch split: sum.splits)

lemma inv_foldl: "provider_inv p \<Longrightarrow> provider_inv (foldl (step session) p xs)"
  by (induction xs arbitrary: p) (simp_all add: inv_step)

lemma inv_run: "provider_inv (run session xs)"
  by (simp add: run_def inv_foldl inv_new)

text \<open>With a granted session, every token source made has launched one loop.\<close>

lemma launched_step:
  "map fst (loops p) = [0..<sources p] \<Longrightarrow>
   map fst (loops (step (Inr accessToken) p x)) = [0..<sources (step (Inr accessToken) p x)]"
  by (cases x)
    (auto simp: provider_watch_def demandForFs_def dispose_def Let_def
      split: option.splits sum.splits prod.splits)

lemma launched_foldl:
  "map fst (loops p) = [0..<sources p] \<Longrightarrow>
   map fst (loops (foldl (step (Inr accessToken)) p xs)) =
     [0..<sources (foldl (step (Inr accessToken)) p xs)]"
  by (induction xs arbitrary: p) (simp_all add: launched_step)

lemma launched_run:
  "map fst (loops (run (Inr accessToken) xs)) = [0..<sources (run (Inr accessToken) xs)]"
  by (simp add: run_def launched_foldl new_provider_def)

lemma inv_current:
  assumes "provider_inv p"
  shows "filter (\<lambda>c. c \<notin> set (cancelled p)) [0..<sources p] =
     (case watcher p of None \<Rightarrow> [] | Some w \<Rightarrow> [cts w])"
proof -
  have e: "[0..<sources p] = cancelled p @ (case watcher p of None \<Rightarrow> [] | Some w \<Rightarrow> [cts w])"
    using assms by (simp add: provider_inv_def)
  have "distinct (cancelled p @ (case watcher p of None \<Rightarrow> [] | Some w \<Rightarrow> [cts w]))"
    unfolding e [symmetric] by simp
  then show ?thesis unfolding e by (auto split: option.splits)
qed

lemma inv_held:
  assumes "provider_inv p" and "k < length (disposed p)" and "\<not> disposed p ! k"
  shows "\<exists>w. watcher p = Some w \<and> 0 < count w \<and> cts w \<notin> set (cancelled p)"
proof -
  have pos: "0 < undisposed p"
    unfolding undisposed_def using assms(2,3) by (rule filter_Not_pos)
  with assms(1) obtain w where w: "watcher p = Some w" "count w = int (undisposed p)"
    by (auto simp: provider_inv_def split: option.splits)
  have "distinct (cancelled p @ [cts w])"
    using assms(1) w distinct_upt [of 0 "sources p"] by (simp add: provider_inv_def)
  then show ?thesis using w pos by simp
qed

text \<open>
  Claim C3, as the code has it: the provider holds one watcher, not one for each drive.
  After every history of \<^verbatim>\<open>watch\<close> calls and disposals on a provider whose session is
  granted: the loops launched so far were launched one for each token source made, in
  order; the sources cancelled so far are, in order and each once, all the sources made
  except the one of the current watcher, which is not cancelled; there is a watcher
  exactly when some handle is not yet disposed, and its count is the number of such
  handles, whatever drives they were asked for. So at most one loop is active on the
  provider, and so at most one for any drive. A call of \<^verbatim>\<open>watch\<close> launches a loop
  exactly when there is no watcher (the first subscription), for the drive of its
  address, and never cancels; a disposal cancels exactly when the handle is the last one
  not yet disposed (the count returns to zero), and then the source of the current
  watcher, and never launches.
\<close>

theorem single_polling_loop:
  "let p = run (Inr accessToken) ops in
     map fst (loops p) = [0..<sources p] \<and>
     map fst (loops p) = cancelled p @ (case watcher p of None \<Rightarrow> [] | Some w \<Rightarrow> [cts w]) \<and>
     (case watcher p of
        None \<Rightarrow> undisposed p = 0
      | Some w \<Rightarrow> count w = int (undisposed p) \<and> 0 < undisposed p) \<and>
     map fst (active p) = (case watcher p of None \<Rightarrow> [] | Some w \<Rightarrow> [cts w]) \<and>
     length (active p) \<le> 1 \<and>
     length (filter (\<lambda>l. snd l = driveId) (active p)) \<le> 1 \<and>
     loops (step (Inr accessToken) p (Watch uri)) =
       (if watcher p = None \<and> scheme uri = provider_scheme
        then loops p @ [(sources p, authority uri)] else loops p) \<and>
     cancelled (step (Inr accessToken) p (Watch uri)) = cancelled p \<and>
     loops (step (Inr accessToken) p (Dispose h)) = loops p \<and>
     cancelled (step (Inr accessToken) p (Dispose h)) =
       (case watcher p of
          None \<Rightarrow> cancelled p
        | Some w \<Rightarrow>
            if h < length (disposed p) \<and> \<not> disposed p ! h \<and> undisposed p = 1
            then cancelled p @ [cts w] else cancelled p)"
proof -
  define p where "p = run (Inr accessToken) ops"
  have inv: "provider_inv p" unfolding p_def by (rule inv_run)
  have l: "map fst (loops p) = [0..<sources p]" unfolding p_def by (rule launched_run)
  have c: "map fst (loops p) = cancelled p @ (case watcher p of None \<Rightarrow> [] | Some w \<Rightarrow> [cts w])"
    using inv l by (simp add: provider_inv_def)
  have u: "case watcher p of
        None \<Rightarrow> undisposed p = 0
      | Some w \<Rightarrow> count w = int (undisposed p) \<and> 0 < undisposed p"
    using inv by (simp add: provider_inv_def)
  have a: "map fst (active p) = (case watcher p of None \<Rightarrow> [] | Some w \<Rightarrow> [cts w])"
  proof -
    have "map fst (active p) = filter (\<lambda>c. c \<notin> set (cancelled p)) (map fst (loops p))"
      by (simp add: active_def filter_map comp_def)
    then show ?thesis using inv_current [OF inv] l by simp
  qed
  have a1: "length (active p) \<le> 1"
  proof -
    have "length (active p) = length (map fst (active p))" by simp
    also have "\<dots> \<le> 1" unfolding a by (simp split: option.splits)
    finally show ?thesis .
  qed
  have a2: "length (filter (\<lambda>l. snd l = driveId) (active p)) \<le> 1"
    using a1 length_filter_le [of "\<lambda>l. snd l = driveId" "active p"] by linarith
  have w1: "loops (step (Inr accessToken) p (Watch uri)) =
       (if watcher p = None \<and> scheme uri = provider_scheme
        then loops p @ [(sources p, authority uri)] else loops p)"
    by (auto simp: provider_watch_def parseUri_def demandForFs_def split: option.splits)
  have w2: "cancelled (step (Inr accessToken) p (Watch uri)) = cancelled p"
    by (auto simp: provider_watch_def parseUri_def demandForFs_def split: option.splits)
  have d1: "loops (step (Inr accessToken) p (Dispose h)) = loops p"
    by (auto simp: dispose_def Let_def split: option.splits)
  have d2: "cancelled (step (Inr accessToken) p (Dispose h)) =
       (case watcher p of
          None \<Rightarrow> cancelled p
        | Some w \<Rightarrow>
            if h < length (disposed p) \<and> \<not> disposed p ! h \<and> undisposed p = 1
            then cancelled p @ [cts w] else cancelled p)"
    using u by (auto simp: dispose_def Let_def split: option.splits)
  from l c u a a1 a2 w1 w2 d1 d2 show ?thesis
    unfolding Let_def p_def [symmetric] by (intro conjI)
qed

theorem single_polling_loop_witness:
  "run (Inr ''token'') history_1 =
     \<lparr>watcher = Some \<lparr>count = 1, cts = 1\<rparr>, sources = 2, cancelled = [0],
      loops = [(0, ''d''), (1, ''e'')], disposed = [True, True, False],
      decrements = [0, 1]\<rparr> \<and>
   undisposed (run (Inr ''token'') history_1) = 1 \<and>
   active (run (Inr ''token'') history_1) = [(1, ''e'')] \<and>
   loops (step (Inr ''token'') (run (Inr ''token'') history_1) (Watch uri_d)) =
     [(0, ''d''), (1, ''e'')] \<and>
   cancelled (step (Inr ''token'') (run (Inr ''token'') history_1) (Dispose 2)) = [0, 1] \<and>
   cancelled (step (Inr ''token'') (run (Inr ''token'') history_1) (Dispose 0)) = [0]"
proof -
  have r: "run (Inr ''token'') history_1 =
     \<lparr>watcher = Some \<lparr>count = 1, cts = 1\<rparr>, sources = 2, cancelled = [0],
      loops = [(0, ''d''), (1, ''e'')], disposed = [True, True, False],
      decrements = [0, 1]\<rparr>"
    by code_simp
  have u: "undisposed (run (Inr ''token'') history_1) = 1"
    by code_simp
  have a: "active (run (Inr ''token'') history_1) = [(1, ''e'')]"
    by code_simp
  have l: "loops (step (Inr ''token'') (run (Inr ''token'') history_1) (Watch uri_d)) =
     [(0, ''d''), (1, ''e'')]"
    by code_simp
  have c: "cancelled (step (Inr ''token'') (run (Inr ''token'') history_1) (Dispose 2)) = [0, 1]"
    "cancelled (step (Inr ''token'') (run (Inr ''token'') history_1) (Dispose 0)) = [0]"
    by code_simp+
  from single_polling_loop [of "''token''" history_1 "''e''" uri_d 2] r u a l c
  show ?thesis by blast
qed

text \<open>
  Claim C3, as stated for each drive, fails when two drives are watched: the first
  subscription for drive \<^verbatim>\<open>e\<close> joins the watcher of drive \<^verbatim>\<open>d\<close> and launches no loop
  for \<^verbatim>\<open>e\<close>; and when the only handle for \<^verbatim>\<open>d\<close> is disposed, the loop of \<^verbatim>\<open>d\<close>
  is not cancelled, the handle for \<^verbatim>\<open>e\<close> holding the shared count at one.
\<close>

theorem single_polling_loop_counterexample:
  "history_3 = [Watch uri_d, Watch uri_e, Dispose 0] \<and>
   authority uri_d = ''d'' \<and> authority uri_e = ''e'' \<and>
   run (Inr ''token'') history_3 =
     \<lparr>watcher = Some \<lparr>count = 1, cts = 0\<rparr>, sources = 1, cancelled = [],
      loops = [(0, ''d'')], disposed = [True, False], decrements = [0]\<rparr> \<and>
   filter (\<lambda>l. snd l = ''e'') (loops (run (Inr ''token'') history_3)) = [] \<and>
   active (run (Inr ''token'') history_3) = [(0, ''d'')]"
proof -
  have "run (Inr ''token'') history_3 =
     \<lparr>watcher = Some \<lparr>count = 1, cts = 0\<rparr>, sources = 1, cancelled = [],
      loops = [(0, ''d'')], disposed = [True, False], decrements = [0]\<rparr>"
    by code_simp
  then show ?thesis
    by (simp add: history_3_def uri_d_def uri_e_def active_def)
qed

text \<open>
  Claim C10. After every history, whatever the session: no handle has decremented the
  count more than once; disposing a handle twice leaves the provider as disposing it once
  does, and disposing a handle that is already disposed changes nothing; as long as some
  handle is not disposed there is a watcher with a positive count whose token source is
  not cancelled; and when an observer disposes its handle twice while another handle is
  not disposed, nothing is cancelled and the watcher stays.
\<close>

theorem dispose_idempotent:
  "let p = run session ops in
     length (filter (\<lambda>k. k = h) (decrements p)) \<le> 1 \<and>
     dispose h (dispose h p) = dispose h p \<and>
     (h < length (disposed p) \<and> disposed p ! h \<longrightarrow> dispose h p = p) \<and>
     (\<forall>k<length (disposed p). \<not> disposed p ! k \<longrightarrow>
        (\<exists>w. watcher p = Some w \<and> 0 < count w \<and> cts w \<notin> set (cancelled p))) \<and>
     (\<forall>k<length (disposed p). k \<noteq> h \<and> \<not> disposed p ! k \<longrightarrow>
        cancelled (dispose h (dispose h p)) = cancelled p \<and>
        watcher (dispose h (dispose h p)) \<noteq> None)"
proof -
  define p where "p = run session ops"
  have inv: "provider_inv p" unfolding p_def by (rule inv_run)
  have "distinct (decrements p)" using inv by (simp add: provider_inv_def)
  then have c1: "length (filter (\<lambda>k. k = h) (decrements p)) \<le> 1"
    by (rule distinct_filter_eq)
  have c3: "h < length (disposed p) \<and> disposed p ! h \<longrightarrow> dispose h p = p"
    by (simp add: dispose_disposed)
  have c4: "\<forall>k<length (disposed p). \<not> disposed p ! k \<longrightarrow>
        (\<exists>w. watcher p = Some w \<and> 0 < count w \<and> cts w \<notin> set (cancelled p))"
    using inv_held [OF inv] by blast
  have c5: "\<forall>k<length (disposed p). k \<noteq> h \<and> \<not> disposed p ! k \<longrightarrow>
        cancelled (dispose h (dispose h p)) = cancelled p \<and>
        watcher (dispose h (dispose h p)) \<noteq> None"
  proof (intro allI impI)
    fix k assume k: "k < length (disposed p)" "k \<noteq> h \<and> \<not> disposed p ! k"
    then have "k < length (disposed (dispose h p))" "\<not> disposed (dispose h p) ! k"
      by (simp_all add: disposed_dispose)
    from inv_held [OF inv_dispose [OF inv] this]
    have "watcher (dispose h p) \<noteq> None" by auto
    then show "cancelled (dispose h (dispose h p)) = cancelled p \<and>
        watcher (dispose h (dispose h p)) \<noteq> None"
      by (simp add: dispose_dispose dispose_keeps_cancelled)
  qed
  from c1 c3 c4 c5 show ?thesis
    unfolding Let_def p_def [symmetric] by (simp add: dispose_dispose)
qed

theorem dispose_idempotent_witness:
  "run (Inr ''token'') history_2 =
     \<lparr>watcher = Some \<lparr>count = 2, cts = 0\<rparr>, sources = 1, cancelled = [],
      loops = [(0, ''d'')], disposed = [False, False], decrements = []\<rparr> \<and>
   dispose 0 (run (Inr ''token'') history_2) =
     \<lparr>watcher = Some \<lparr>count = 1, cts = 0\<rparr>, sources = 1, cancelled = [],
      loops = [(0, ''d'')], disposed = [True, False], decrements = [0]\<rparr> \<and>
   dispose 0 (dispose 0 (run (Inr ''token'') history_2)) =
     dispose 0 (run (Inr ''token'') history_2) \<and>
   cancelled (dispose 0 (dispose 0 (run (Inr ''token'') history_2))) = [] \<and>
   watcher (dispose 0 (dispose 0 (run (Inr ''token'') history_2))) \<noteq> None"
proof -
  have r: "run (Inr ''token'') history_2 =
     \<lparr>watcher = Some \<lparr>count = 2, cts = 0\<rparr>, sources = 1, cancelled = [],
      loops = [(0, ''d'')], disposed = [False, False], decrements = []\<rparr>"
    by code_simp
  have d: "dispose 0 (run (Inr ''token'') history_2) =
     \<lparr>watcher = Some \<lparr>count = 1, cts = 0\<rparr>, sources = 1, cancelled = [],
      loops = [(0, ''d'')], disposed = [True, False], decrements = [0]\<rparr>"
    by code_simp
  from dispose_idempotent [of "Inr ''token''" history_2 0]
  have "dispose 0 (dispose 0 (run (Inr ''token'') history_2)) =
      dispose 0 (run (Inr ''token'') history_2)"
    and "cancelled (dispose 0 (dispose 0 (run (Inr ''token'') history_2))) =
      cancelled (run (Inr ''token'') history_2) \<and>
      watcher (dispose 0 (dispose 0 (run (Inr ''token'') history_2))) \<noteq> None"
    unfolding Let_def r by (simp, fastforce)
  then show ?thesis using r d by simp
qed

end
